theory Spec2Isabelle
  imports Complex_Main "HOL-Library.Word" "HOL-Library.AList"
begin

unbundle bit_operations_syntax

section \<open>Python values, errors and the hash library\<close>

text \<open>
  A Python \<open>str\<close> is a sequence of Unicode code points; a \<open>bytes\<close> value is a list of
  8-bit words. Arguments annotated \<open>Any\<close> (or checked with \<open>isinstance\<close>) are values of
  \<open>pyval\<close>. Python integers are unbounded, hence \<open>int\<close>.
\<close>

type_synonym byte = "8 word"
type_synonym pystr = "nat list"

datatype pyval = PNone | PBool bool | PInt int | PStr pystr

datatype error = ValueError | TypeError | IndexError | ZeroDivisionError | OverflowError

text \<open>\<open>isinstance(x, int)\<close>: \<open>bool\<close> is a subclass of \<open>int\<close> (\<open>True == 1\<close>).\<close>

fun isinstance_int :: "pyval \<Rightarrow> int option" where
  "isinstance_int (PInt n) = Some n"
| "isinstance_int (PBool b) = Some (if b then 1 else 0)"
| "isinstance_int PNone = None"
| "isinstance_int (PStr s) = None"

text \<open>
  \<open>hashlib\<close> is not code of the repository: the three digest functions the sources call
  are parameters. \<open>blake2b8\<close> is \<open>blake2b(..., digest_size=8)\<close>.
\<close>

record hashlib =
  sha256 :: "byte list \<Rightarrow> byte list"
  md5 :: "byte list \<Rightarrow> byte list"
  blake2b8 :: "byte list \<Rightarrow> byte list"

text \<open>\<open>hashlib\<close>'s contract on digest lengths: 32, 16 and 8 bytes.\<close>

definition digest_sizes :: "hashlib \<Rightarrow> bool" where
  "digest_sizes H \<longleftrightarrow>
     (\<forall>b. length (sha256 H b) = 32 \<and> length (md5 H b) = 16 \<and> length (blake2b8 H b) = 8)"

text \<open>
  \<open>item.encode("utf-8", errors="replace")\<close>: UTF-8, a lone surrogate (the only code
  points UTF-8 cannot encode) replaced by \<open>?\<close>.
\<close>

definition encode_char :: "nat \<Rightarrow> byte list" where
  "encode_char c =
     (if c < 0x80 then [of_nat c]
      else if c < 0x800 then [of_nat (0xC0 + c div 64), of_nat (0x80 + c mod 64)]
      else if 0xD800 \<le> c \<and> c \<le> 0xDFFF then [0x3F]
      else if c < 0x10000 then
        [of_nat (0xE0 + c div 4096), of_nat (0x80 + (c div 64) mod 64), of_nat (0x80 + c mod 64)]
      else
        [of_nat (0xF0 + c div 262144), of_nat (0x80 + (c div 4096) mod 64),
         of_nat (0x80 + (c div 64) mod 64), of_nat (0x80 + c mod 64)])"

definition encode_utf8 :: "pystr \<Rightarrow> byte list" where
  "encode_utf8 s = concat (map encode_char s)"

text \<open>\<open>int.from_bytes(d, "big")\<close>, unsigned.\<close>

definition from_bytes_big :: "byte list \<Rightarrow> int" where
  "from_bytes_big d = foldl (\<lambda>acc b. acc * 256 + uint b) 0 d"

text \<open>\<open>a % b\<close> on Python integers: floor modulus, \<open>ZeroDivisionError\<close> when \<open>b = 0\<close>.\<close>

definition py_mod :: "int \<Rightarrow> int \<Rightarrow> error + int" where
  "py_mod a b = (if b = 0 then Inl ZeroDivisionError else Inr (a mod b))"

text \<open>Indexing a sequence: a negative index counts from the end, out of range raises.\<close>

definition py_index :: "'a list \<Rightarrow> int \<Rightarrow> nat option" where
  "py_index xs i =
     (let n = int (length xs); j = (if i < 0 then n + i else i)
      in if 0 \<le> j \<and> j < n then Some (nat j) else None)"

section \<open>task1.py: BloomFilter\<close>

record BloomFilter =
  size_bf :: int
  num_hashes :: int
  bits :: "byte list"

definition BloomFilter_init :: "pyval \<Rightarrow> pyval \<Rightarrow> error + BloomFilter" where
  "BloomFilter_init size_arg num_hashes_arg =
     (case isinstance_int size_arg of
        None \<Rightarrow> Inl ValueError
      | Some s \<Rightarrow>
          if s \<le> 0 then Inl ValueError
          else (case isinstance_int num_hashes_arg of
                  None \<Rightarrow> Inl ValueError
                | Some k \<Rightarrow>
                    if k \<le> 0 then Inl ValueError
                    else Inr \<lparr>size_bf = s, num_hashes = k,
                              bits = replicate (nat ((s + 7) div 8)) 0\<rparr>))"

definition set_bit_bf :: "BloomFilter \<Rightarrow> int \<Rightarrow> error + BloomFilter" where
  "set_bit_bf bf idx =
     (let byte_i = idx div 8; bit_i = idx mod 8
      in case py_index (bits bf) byte_i of
           None \<Rightarrow> Inl IndexError
         | Some j \<Rightarrow>
             Inr (bf\<lparr>bits := (bits bf)[j := (bits bf ! j) OR push_bit (nat bit_i) 1]\<rparr>))"

definition get_bit_bf :: "BloomFilter \<Rightarrow> int \<Rightarrow> error + int" where
  "get_bit_bf bf idx =
     (let byte_i = idx div 8; bit_i = idx mod 8
      in case py_index (bits bf) byte_i of
           None \<Rightarrow> Inl IndexError
         | Some j \<Rightarrow> Inr (uint (drop_bit (nat bit_i) (bits bf ! j) AND 1)))"

text \<open>
  \<open>_hash_positions\<close> is a generator: the list holds what each \<open>yield\<close> produces, an
  \<open>Inl\<close> where evaluating the yielded expression raises (the consumer stops there).
\<close>

definition hash_h1 :: "hashlib \<Rightarrow> pystr \<Rightarrow> int" where
  "hash_h1 H item = from_bytes_big (sha256 H (encode_utf8 item))"

definition hash_h2 :: "hashlib \<Rightarrow> pystr \<Rightarrow> int" where
  "hash_h2 H item =
     (let d = from_bytes_big (md5 H (encode_utf8 item)) in if d = 0 then 1 else d)"

function hash_loop :: "int \<Rightarrow> int \<Rightarrow> int \<Rightarrow> int \<Rightarrow> int \<Rightarrow> (error + int) list" where
  "hash_loop i n h1 h2 sz =
     (if i < n then py_mod (h1 + i * h2) sz # hash_loop (i + 1) n h1 h2 sz else [])"
  by pat_completeness auto
termination
  by (relation "measure (\<lambda>(i, n, h1, h2, sz). nat (n - i))") auto

declare hash_loop.simps [simp del]

definition hash_positions :: "hashlib \<Rightarrow> BloomFilter \<Rightarrow> pystr \<Rightarrow> (error + int) list" where
  "hash_positions H bf item =
     hash_loop 0 (num_hashes bf) (hash_h1 H item) (hash_h2 H item) (size_bf bf)"

fun add_loop :: "BloomFilter \<Rightarrow> (error + int) list \<Rightarrow> error + BloomFilter" where
  "add_loop bf [] = Inr bf"
| "add_loop bf (Inl e # ps) = Inl e"
| "add_loop bf (Inr pos # ps) =
     (case set_bit_bf bf pos of Inl e \<Rightarrow> Inl e | Inr bf' \<Rightarrow> add_loop bf' ps)"

definition BloomFilter_add :: "hashlib \<Rightarrow> BloomFilter \<Rightarrow> pyval \<Rightarrow> error + BloomFilter" where
  "BloomFilter_add H bf item =
     (case item of
        PStr s \<Rightarrow> add_loop bf (hash_positions H bf s)
      | _ \<Rightarrow> Inl TypeError)"

text \<open>\<open>all(...)\<close> over the generator stops at the first bit that is 0.\<close>

fun contains_loop :: "BloomFilter \<Rightarrow> (error + int) list \<Rightarrow> error + bool" where
  "contains_loop bf [] = Inr True"
| "contains_loop bf (Inl e # ps) = Inl e"
| "contains_loop bf (Inr pos # ps) =
     (case get_bit_bf bf pos of
        Inl e \<Rightarrow> Inl e
      | Inr b \<Rightarrow> if b = 0 then Inr False else contains_loop bf ps)"

definition BloomFilter_contains :: "hashlib \<Rightarrow> BloomFilter \<Rightarrow> pyval \<Rightarrow> error + bool" where
  "BloomFilter_contains H bf item =
     (case item of
        PStr s \<Rightarrow> contains_loop bf (hash_positions H bf s)
      | _ \<Rightarrow> Inl TypeError)"

section \<open>task1.py: check_password_uniqueness\<close>

text \<open>
  The three status strings of the source, as code points: the Ukrainian words for
  "invalid", "already used" (a duplicate) and "unique".
\<close>

definition status_invalid :: pystr where
  "status_invalid = [1085, 1077, 1082, 1086, 1088, 1077, 1082, 1090, 1085, 1080, 1081]"

definition status_duplicate :: pystr where
  "status_duplicate =
     [1074, 1078, 1077, 32, 1074, 1080, 1082, 1086, 1088, 1080, 1089, 1090, 1072, 1085, 1080, 1081]"

definition status_unique :: pystr where
  "status_unique = [1091, 1085, 1110, 1082, 1072, 1083, 1100, 1085, 1080, 1081]"

text \<open>
  \<open>str(p)\<close>. Converting an \<open>int\<close> to decimal is limited by CPython (3.11, and the
  security releases of 3.7 to 3.10) to \<open>sys.int_info.default_max_str_digits = 4300\<close>
  digits, the sign not counted: \<open>str\<close> of an integer with more digits raises
  \<open>ValueError\<close>.
\<close>

definition max_str_digits :: nat where
  "max_str_digits = 4300"

fun digits_of :: "nat \<Rightarrow> pystr" where
  "digits_of n = (if n < 10 then [48 + n] else digits_of (n div 10) @ [48 + n mod 10])"

declare digits_of.simps [simp del]

fun py_str :: "pyval \<Rightarrow> error + pystr" where
  "py_str (PStr s) = Inr s"
| "py_str PNone = Inr [78, 111, 110, 101]"
| "py_str (PBool b) = Inr (if b then [84, 114, 117, 101] else [70, 97, 108, 115, 101])"
| "py_str (PInt n) =
     (if 10 ^ max_str_digits \<le> \<bar>n\<bar> then Inl ValueError
      else Inr (if n < 0 then 45 # digits_of (nat (- n)) else digits_of (nat n)))"

fun isinstance_str :: "pyval \<Rightarrow> pystr option" where
  "isinstance_str (PStr s) = Some s"
| "isinstance_str PNone = None"
| "isinstance_str (PBool b) = None"
| "isinstance_str (PInt n) = None"

text \<open>\<open>str.strip()\<close> removes the code points for which \<open>str.isspace\<close> holds.\<close>

definition is_space :: "nat \<Rightarrow> bool" where
  "is_space c \<longleftrightarrow>
     (0x09 \<le> c \<and> c \<le> 0x0D) \<or> (0x1C \<le> c \<and> c \<le> 0x20) \<or> c = 0x85 \<or> c = 0xA0 \<or>
     c = 0x1680 \<or> (0x2000 \<le> c \<and> c \<le> 0x200A) \<or> c = 0x2028 \<or> c = 0x2029 \<or>
     c = 0x202F \<or> c = 0x205F \<or> c = 0x3000"

definition strip :: "pystr \<Rightarrow> pystr" where
  "strip s = rev (dropWhile is_space (rev (dropWhile is_space s)))"

type_synonym results = "(pystr \<times> pystr) list"

text \<open>\<open>p is None or not isinstance(p, str) or p.strip() == ""\<close>\<close>

definition invalid_candidate :: "pyval \<Rightarrow> bool" where
  "invalid_candidate p \<longleftrightarrow>
     p = PNone \<or> (case isinstance_str p of None \<Rightarrow> True | Some s \<Rightarrow> strip s = [])"

text \<open>
  One iteration of the loop over \<open>new_passwords\<close>. The filter is mutated in place by
  \<open>bloom.add\<close>, so it is part of the state together with the \<open>results\<close> dictionary
  (an association list in insertion order; \<open>AList.update\<close> overwrites in place, as a
  Python \<open>dict\<close> does). The key \<open>p if isinstance(p, str) else str(p)\<close> is computed
  first, so an error of \<open>str\<close> leaves the iteration before the validity test. Past
  that test \<open>p\<close> is a \<open>str\<close> and \<open>results[p]\<close> writes the entry \<open>key\<close>.
\<close>

definition classify_step ::
  "hashlib \<Rightarrow> bool \<Rightarrow> BloomFilter \<times> results \<Rightarrow> pyval \<Rightarrow> error + BloomFilter \<times> results" where
  "classify_step H add_unique_to_filter st p =
     (let bloom = fst st; results = snd st
      in case (case isinstance_str p of Some s \<Rightarrow> Inr s | None \<Rightarrow> py_str p) of
           Inl e \<Rightarrow> Inl e
         | Inr key \<Rightarrow>
             if invalid_candidate p then Inr (bloom, AList.update key status_invalid results)
             else (case BloomFilter_contains H bloom p of
                     Inl e \<Rightarrow> Inl e
                   | Inr c \<Rightarrow>
                       if c then Inr (bloom, AList.update key status_duplicate results)
                       else if add_unique_to_filter then
                         (case BloomFilter_add H bloom p of
                            Inl e \<Rightarrow> Inl e
                          | Inr bloom' \<Rightarrow> Inr (bloom', AList.update key status_unique results))
                       else Inr (bloom, AList.update key status_unique results)))"

fun classify_loop ::
  "hashlib \<Rightarrow> bool \<Rightarrow> BloomFilter \<times> results \<Rightarrow> pyval list \<Rightarrow> error + BloomFilter \<times> results" where
  "classify_loop H a st [] = Inr st"
| "classify_loop H a st (p # ps) =
     (case classify_step H a st p of Inl e \<Rightarrow> Inl e | Inr st' \<Rightarrow> classify_loop H a st' ps)"

text \<open>
  The result pairs the filter as the call leaves it with the returned dictionary.
\<close>

definition check_password_uniqueness ::
  "hashlib \<Rightarrow> BloomFilter \<Rightarrow> pyval list \<Rightarrow> bool \<Rightarrow> error + BloomFilter \<times> results" where
  "check_password_uniqueness H bloom new_passwords add_unique_to_filter =
     classify_loop H add_unique_to_filter (bloom, []) new_passwords"

section \<open>Python floats\<close>

text \<open>
  A Python \<open>float\<close> is an IEEE 754 binary64 number. A finite one is modelled by the
  real number it denotes: the doubles are the numbers \<open>k * 2 ^ e\<close> with
  \<open>\<bar>k\<bar> < 2 ^ 53\<close> and \<open>- 1074 \<le> e\<close>. An arithmetic operation returns the exact
  result rounded to the nearest double, ties to the even significand; \<open>fl\<close> is that
  rounding, and \<open>ulp_exp x\<close> the exponent of the last place of the doubles around \<open>x\<close>
  (52 below the binary exponent of \<open>x\<close>, and \<open>- 1074\<close> in the subnormal range).

  Infinities and NaN are not values of the model. Where Python raises instead of
  returning them, the model raises: the conversion of an \<open>int\<close> that is too large,
  \<open>**\<close>, and the division of two \<open>int\<close>s. A product or quotient of floats beyond the
  largest double is \<open>inf\<close> in Python and outside the model; an estimator that satisfies
  the invariant stays far below (lemma \<open>dbl_raw_finite\<close>).
\<close>

definition ulp_exp :: "real \<Rightarrow> int" where
  "ulp_exp x = max (\<lfloor>log 2 \<bar>x\<bar>\<rfloor> - 52) (- 1074)"

definition round_half_even :: "real \<Rightarrow> int" where
  "round_half_even q =
     (let f = \<lfloor>q\<rfloor>; r = q - of_int f
      in if r < 1 / 2 then f else if 1 / 2 < r then f + 1 else if even f then f else f + 1)"

definition fl :: "real \<Rightarrow> real" where
  "fl x = (if x = 0 then 0
           else of_int (round_half_even (x / 2 powi ulp_exp x)) * 2 powi ulp_exp x)"

text \<open>
  The conversion of an \<open>int\<close> operand of a float operation: correctly rounded,
  \<open>OverflowError\<close> when the rounded value is not a finite double.
\<close>

definition py_float :: "int \<Rightarrow> error + real" where
  "py_float n =
     (if 2 ^ 1024 \<le> \<bar>fl (of_int n)\<bar> then Inl OverflowError else Inr (fl (of_int n)))"

text \<open>
  \<open>2.0 ** k\<close> for an \<open>int\<close> \<open>k\<close>: \<open>k\<close> is converted to a float \<open>y\<close> and the result is
  \<open>pow(2.0, y)\<close>, which is the power of two when that is a double, \<open>0.0\<close> below the
  subnormal range and \<open>OverflowError\<close> from \<open>2 ^ 1024\<close> on. (Where \<open>y\<close> differs from
  \<open>k\<close>, beyond \<open>2 ^ 53\<close>, the result is \<open>0.0\<close> or the error for both.)
\<close>

definition py_pow2 :: "int \<Rightarrow> error + real" where
  "py_pow2 k =
     (case py_float k of
        Inl e \<Rightarrow> Inl e
      | Inr y \<Rightarrow> if 1024 \<le> y then Inl OverflowError else Inr (fl (2 powi k)))"

text \<open>\<open>a / b\<close> on floats.\<close>

definition py_fdiv :: "real \<Rightarrow> real \<Rightarrow> error + real" where
  "py_fdiv a b = (if b = 0 then Inl ZeroDivisionError else Inr (fl (a / b)))"

text \<open>\<open>a / b\<close> on \<open>int\<close>s: the quotient of the two integers, correctly rounded.\<close>

definition py_truediv :: "int \<Rightarrow> int \<Rightarrow> error + real" where
  "py_truediv a b =
     (if b = 0 then Inl ZeroDivisionError
      else if 2 ^ 1024 \<le> \<bar>fl (of_int a / of_int b)\<bar> then Inl OverflowError
      else Inr (fl (of_int a / of_int b)))"

text \<open>
  \<open>math.log\<close> is the logarithm of the C library. How it rounds is not fixed by a
  standard, so the function it computes on the positive doubles is the parameter
  \<open>math_log\<close>; outside its domain it raises \<open>ValueError\<close>. (Its values on the
  doubles lie between \<open>- 745\<close> and \<open>710\<close>, so the products \<open>estimate\<close> forms with
  them are finite.)
\<close>

definition py_log :: "(real \<Rightarrow> real) \<Rightarrow> real \<Rightarrow> error + real" where
  "py_log math_log x = (if x \<le> 0 then Inl ValueError else Inr (math_log x))"

section \<open>task2.py: HyperLogLog\<close>

text \<open>
  The field \<open>alpha\<close> holds a real number. The constructor's float literals and its one
  float expression are read as the reals they denote; the double Python stores differs
  from that real by the rounding of the literals and of each operation. \<open>estimate\<close>,
  where a rounded value decides between the branches, is modelled in doubles, and what
  is proved of it holds for every \<open>alpha\<close> between 0 and 1, so for the stored double too.
\<close>

record HyperLogLog =
  p_hll :: int
  m_hll :: int
  registers :: "int list"
  alpha :: real

definition HyperLogLog_init :: "pyval \<Rightarrow> error + HyperLogLog" where
  "HyperLogLog_init p_arg =
     (case isinstance_int p_arg of
        None \<Rightarrow> Inl ValueError
      | Some p \<Rightarrow>
          if p < 4 \<or> p > 20 then Inl ValueError
          else let m = push_bit (nat p) (1::int)
               in Inr \<lparr>p_hll = p, m_hll = m, registers = replicate (nat m) 0,
                        alpha = (if m = 16 then 0.673
                                 else if m = 32 then 0.697
                                 else if m = 64 then 0.709
                                 else 0.7213 / (1 + 1.079 / real_of_int m))\<rparr>)"

definition hash64 :: "hashlib \<Rightarrow> pystr \<Rightarrow> int" where
  "hash64 H x = from_bytes_big (blake2b8 H (encode_utf8 x))"

text \<open>\<open>int.bit_length()\<close>: the number of bits of the absolute value.\<close>

fun bit_length_nat :: "nat \<Rightarrow> nat" where
  "bit_length_nat n = (if n = 0 then 0 else Suc (bit_length_nat (n div 2)))"

declare bit_length_nat.simps [simp del]

definition bit_length :: "int \<Rightarrow> int" where
  "bit_length w = int (bit_length_nat (nat \<bar>w\<bar>))"

definition clz :: "int \<Rightarrow> int \<Rightarrow> int" where
  "clz w width = (if w = 0 then width else width - bit_length w)"

text \<open>A shift by a negative count raises \<open>ValueError\<close>.\<close>

definition HyperLogLog_add :: "hashlib \<Rightarrow> HyperLogLog \<Rightarrow> pystr \<Rightarrow> error + HyperLogLog" where
  "HyperLogLog_add H h item =
     (let x = hash64 H item; k = 64 - p_hll h
      in if k < 0 then Inl ValueError
         else let idx = drop_bit (nat k) x;
                  w = x AND (push_bit (nat k) 1 - 1);
                  rho = clz w k + 1
              in case py_index (registers h) idx of
                   None \<Rightarrow> Inl IndexError
                 | Some j \<Rightarrow>
                     if rho > registers h ! j
                     then Inr (h\<lparr>registers := (registers h)[j := rho]\<rparr>)
                     else Inr h)"

text \<open>
  The loop of \<open>estimate\<close> over the registers, \<open>(inv_sum, zeros)\<close>:
  \<open>inv_sum += 2.0 ** (-r)\<close> rounds each partial sum.
\<close>

fun estimate_loop :: "int list \<Rightarrow> real \<times> int \<Rightarrow> error + real \<times> int" where
  "estimate_loop [] acc = Inr acc"
| "estimate_loop (r # rs) (inv_sum, zeros) =
     (case py_pow2 (- r) of
        Inl e \<Rightarrow> Inl e
      | Inr t \<Rightarrow> estimate_loop rs (fl (inv_sum + t), if r = 0 then zeros + 1 else zeros))"

text \<open>
  \<open>raw = self.alpha * (m * m) / inv_sum\<close>: the \<open>int\<close> \<open>m * m\<close> is converted, then the
  product is rounded, then the quotient.
\<close>

definition raw_estimate :: "HyperLogLog \<Rightarrow> real \<Rightarrow> error + real" where
  "raw_estimate h inv_sum =
     (case py_float (m_hll h * m_hll h) of
        Inl e \<Rightarrow> Inl e
      | Inr mm \<Rightarrow> py_fdiv (fl (alpha h * mm)) inv_sum)"

text \<open>
  \<open>estimate\<close>. The \<open>int\<close> \<open>m\<close> is converted in \<open>2.5 * m\<close>, before \<open>zeros > 0\<close> is tested,
  and again, to the same float, in \<open>m * math.log(...)\<close>; \<open>two64\<close> is \<open>2.0 ** 64\<close>.
\<close>

definition HyperLogLog_estimate :: "(real \<Rightarrow> real) \<Rightarrow> HyperLogLog \<Rightarrow> error + real" where
  "HyperLogLog_estimate math_log h =
     (let m = m_hll h
      in case estimate_loop (registers h) (0, 0) of
           Inl e \<Rightarrow> Inl e
         | Inr (inv_sum, zeros) \<Rightarrow>
      (case raw_estimate h inv_sum of
           Inl e \<Rightarrow> Inl e
         | Inr raw \<Rightarrow>
      (case py_float m of
           Inl e \<Rightarrow> Inl e
         | Inr fm \<Rightarrow>
             if raw \<le> fl (2.5 * fm) \<and> zeros > 0 then
               (case py_truediv m zeros of
                  Inl e \<Rightarrow> Inl e
                | Inr q \<Rightarrow> (case py_log math_log q of
                               Inl e \<Rightarrow> Inl e
                             | Inr l \<Rightarrow> Inr (fl (fm * l))))
             else (case py_pow2 64 of
                     Inl e \<Rightarrow> Inl e
                   | Inr two64 \<Rightarrow>
                       if raw > fl (two64 / 30) then
                         (case py_log math_log (fl (1 - fl (raw / two64))) of
                            Inl e \<Rightarrow> Inl e
                          | Inr l \<Rightarrow> Inr (fl (- two64 * l)))
                       else Inr raw))))"

section \<open>Invariant, reachable filters and a sample of the hash library\<close>

text \<open>Every element the generator yielded is a position whose bit is 1.\<close>

definition all_set :: "BloomFilter \<Rightarrow> (error + int) list \<Rightarrow> bool" where
  "all_set bf ps \<longleftrightarrow> (\<forall>x \<in> set ps. \<exists>pos. x = Inr pos \<and> get_bit_bf bf pos = Inr 1)"

text \<open>What the constructor establishes and every insertion keeps.\<close>

definition bf_inv :: "BloomFilter \<Rightarrow> bool" where
  "bf_inv bf \<longleftrightarrow>
     0 < size_bf bf \<and> 0 < num_hashes bf \<and>
     length (bits bf) = nat ((size_bf bf + 7) div 8)"

text \<open>
  The filters a caller can hold: built by the constructor, then changed by \<open>add\<close> only
  (a call that raises leaves no filter to go on with).
\<close>

inductive reachable :: "hashlib \<Rightarrow> BloomFilter \<Rightarrow> bool" for H :: hashlib where
  init: "BloomFilter_init size_arg num_hashes_arg = Inr bf \<Longrightarrow> reachable H bf"
| add: "reachable H bf \<Longrightarrow> BloomFilter_add H bf (PStr s) = Inr bf' \<Longrightarrow> reachable H bf'"

text \<open>
  An instance of the parameter for the closed examples: it returns the digests that
  \<open>hashlib\<close> computes for the empty byte string and for \<open>b"a"\<close>, and zero bytes
  (of the right length) for every other input. The examples only hash those two inputs.
\<close>

definition sample_hashlib :: hashlib where
  "sample_hashlib =
     \<lparr>sha256 = (\<lambda>b.
        if b = [] then
          [227, 176, 196, 66, 152, 252, 28, 20, 154, 251, 244, 200, 153, 111, 185, 36,
           39, 174, 65, 228, 100, 155, 147, 76, 164, 149, 153, 27, 120, 82, 184, 85]
        else if b = [97] then
          [202, 151, 129, 18, 202, 27, 189, 202, 250, 194, 49, 179, 154, 35, 220, 77,
           167, 134, 239, 248, 20, 124, 78, 114, 185, 128, 119, 133, 175, 238, 72, 187]
        else replicate 32 0),
      md5 = (\<lambda>b.
        if b = [] then
          [212, 29, 140, 217, 143, 0, 178, 4, 233, 128, 9, 152, 236, 248, 66, 126]
        else if b = [97] then
          [12, 193, 117, 185, 192, 241, 182, 168, 49, 195, 153, 226, 105, 119, 38, 97]
        else replicate 16 0),
      blake2b8 = (\<lambda>b.
        if b = [] then [228, 166, 160, 87, 116, 121, 178, 180]
        else if b = [97] then [64, 248, 158, 57, 91, 102, 66, 47]
        else replicate 8 0)\<rparr>"

text \<open>Every element the generator yielded is a position inside the filter.\<close>

definition in_range :: "BloomFilter \<Rightarrow> (error + int) list \<Rightarrow> bool" where
  "in_range bf ps \<longleftrightarrow> (\<forall>x \<in> set ps. \<exists>pos. x = Inr pos \<and> 0 \<le> pos \<and> pos < size_bf bf)"

text \<open>
  Bits are never cleared: the second filter answers \<open>True\<close> to every query the first
  one answers \<open>True\<close> to.
\<close>

definition grows :: "hashlib \<Rightarrow> BloomFilter \<Rightarrow> BloomFilter \<Rightarrow> bool" where
  "grows H bf bf' \<longleftrightarrow>
     (\<forall>q. BloomFilter_contains H bf (PStr q) = Inr True \<longrightarrow>
          BloomFilter_contains H bf' (PStr q) = Inr True)"

section \<open>Invariant and reachable states of the estimator\<close>

text \<open>The value of \<open>alpha\<close> the constructor computes from \<open>m\<close>.\<close>

definition alpha_of :: "int \<Rightarrow> real" where
  "alpha_of m =
     (if m = 16 then 0.673 else if m = 32 then 0.697 else if m = 64 then 0.709
      else 0.7213 / (1 + 1.079 / real_of_int m))"

text \<open>
  What the constructor establishes and every update keeps: \<open>m = 2 ^ p\<close> registers, each
  between 0 and \<open>64 - p + 1\<close>.
\<close>

definition hll_inv :: "HyperLogLog \<Rightarrow> bool" where
  "hll_inv h \<longleftrightarrow>
     4 \<le> p_hll h \<and> p_hll h \<le> 20 \<and> m_hll h = 2 ^ nat (p_hll h) \<and>
     length (registers h) = nat (m_hll h) \<and> alpha h = alpha_of (m_hll h) \<and>
     (\<forall>r \<in> set (registers h). 0 \<le> r \<and> r \<le> 64 - p_hll h + 1)"

inductive hll_reachable :: "hashlib \<Rightarrow> HyperLogLog \<Rightarrow> bool" for H :: hashlib where
  init: "HyperLogLog_init p_arg = Inr h \<Longrightarrow> hll_reachable H h"
| add: "hll_reachable H h \<Longrightarrow> HyperLogLog_add H h item = Inr h' \<Longrightarrow> hll_reachable H h'"

text \<open>
  The invariant as far as \<open>estimate\<close> needs it: the registers as above, and \<open>alpha\<close>
  any number between 0 and 1, which covers the real the constructor's expression
  denotes and the double that is stored.
\<close>

definition hll_double_inv :: "HyperLogLog \<Rightarrow> bool" where
  "hll_double_inv h \<longleftrightarrow>
     4 \<le> p_hll h \<and> p_hll h \<le> 20 \<and> m_hll h = 2 ^ nat (p_hll h) \<and>
     length (registers h) = nat (m_hll h) \<and> 0 < alpha h \<and> alpha h < 1 \<and>
     (\<forall>r \<in> set (registers h). 0 \<le> r \<and> r \<le> 64 - p_hll h + 1)"

text \<open>
  The quantities of the estimate in the specification's words, in double arithmetic:
  the sum of \<open>2 ^ (- register)\<close> accumulated over the registers in their order, the
  number of registers that are zero, and the raw harmonic-mean estimate
  \<open>alpha * m ^ 2 / sum\<close>.
\<close>

definition dbl_inv_sum :: "HyperLogLog \<Rightarrow> real" where
  "dbl_inv_sum h = foldl (\<lambda>acc r. fl (acc + 2 powi (- r))) 0 (registers h)"

definition spec_zero_count :: "HyperLogLog \<Rightarrow> int" where
  "spec_zero_count h = int (length (filter (\<lambda>r. r = 0) (registers h)))"

definition dbl_raw :: "HyperLogLog \<Rightarrow> real" where
  "dbl_raw h = fl (fl (alpha h * real_of_int (m_hll h * m_hll h)) / dbl_inv_sum h)"

text \<open>
  An estimator with \<open>p = 6\<close> whose raw estimate lies at the threshold of the
  small-range correction: 18 registers are zero and the sum of \<open>2 ^ (- register)\<close> is
  \<open>5108883417289090 / 2 ^ 48\<close>, just below \<open>0.709 * 64 ^ 2 / 160\<close>.
\<close>

definition boundary_state :: HyperLogLog where
  "boundary_state =
     \<lparr>p_hll = 6, m_hll = 64,
      registers = replicate 18 0 @ replicate 6 7 @ replicate 26 8 @
                  [9, 17, 20, 21, 22, 24, 26, 29, 32, 34, 36, 40, 41, 47],
      alpha = 0.709\<rparr>"

section \<open>The generator and the bits of a byte\<close>

lemma hash_loop_map:
  "hash_loop i n h1 h2 sz = map (\<lambda>j. py_mod (h1 + j * h2) sz) [i..n - 1]"
proof (induction i n h1 h2 sz rule: hash_loop.induct)
  case (1 i n h1 h2 sz)
  show ?case
  proof (cases "i < n")
    case True
    then have "[i..n - 1] = i # [i + 1..n - 1]"
      by (simp add: upto_rec1)
    with True 1 show ?thesis
      by (subst hash_loop.simps) simp
  next
    case False
    then show ?thesis
      by (subst hash_loop.simps) simp
  qed
qed

lemma byte_test_bit:
  fixes w :: byte
  shows "uint (drop_bit n w AND 1) = (if bit w n then 1 else 0)"
  by (simp add: and_one_eq bit_iff_odd_drop_bit mod_2_eq_odd uint_word_ariths)

lemma byte_or_bit:
  fixes w :: byte
  assumes "n < 8"
  shows "bit (w OR 2 ^ n) k \<longleftrightarrow> bit w k \<or> k = n"
  using assms by (auto simp: bit_or_iff bit_exp_iff)

lemma byte_or_absorb:
  fixes w :: byte
  assumes "bit w n"
  shows "w OR 2 ^ n = w"
  using assms by (intro bit_eqI) (auto simp: bit_or_iff bit_exp_iff)

section \<open>Setting and reading bits of the filter\<close>

lemma py_index_lt: "py_index xs i = Some j \<Longrightarrow> j < length xs"
  by (auto simp: py_index_def Let_def split: if_splits)

lemma mod8_lt: "nat ((idx::int) mod 8) < 8"
  by simp

lemma set_bit_bf_fields:
  "set_bit_bf bf idx = Inr bf' \<Longrightarrow>
     size_bf bf' = size_bf bf \<and> num_hashes bf' = num_hashes bf \<and>
     length (bits bf') = length (bits bf)"
  by (auto simp: set_bit_bf_def Let_def split: option.splits)

lemma py_index_upd [simp]: "py_index (xs[j := v]) i = py_index xs i"
  by (simp add: py_index_def)

lemma get_after_set:
  assumes "set_bit_bf bf idx = Inr bf'"
  shows "get_bit_bf bf' idx = Inr 1"
proof -
  from assms obtain j where j: "py_index (bits bf) (idx div 8) = Some j"
    and bf': "bf' = bf\<lparr>bits := (bits bf)[j := (bits bf ! j) OR push_bit (nat (idx mod 8)) 1]\<rparr>"
    by (auto simp: set_bit_bf_def Let_def split: option.splits)
  have "bit (bits bf' ! j) (nat (idx mod 8))"
    using py_index_lt [OF j] by (simp add: bf' byte_or_bit [OF mod8_lt])
  then show ?thesis
    using j by (simp add: get_bit_bf_def Let_def byte_test_bit bf')
qed

lemma get_bit_bf_1:
  "get_bit_bf bf i = Inr 1 \<longleftrightarrow>
     (\<exists>k. py_index (bits bf) (i div 8) = Some k \<and> bit (bits bf ! k) (nat (i mod 8)))"
  by (cases "py_index (bits bf) (i div 8)") (simp_all add: get_bit_bf_def byte_test_bit)

lemma get_mono_set:
  assumes "set_bit_bf bf idx = Inr bf'" and "get_bit_bf bf i = Inr 1"
  shows "get_bit_bf bf' i = Inr 1"
proof -
  from assms(1) obtain j where j: "py_index (bits bf) (idx div 8) = Some j"
    and bf': "bf' = bf\<lparr>bits := (bits bf)[j := (bits bf ! j) OR push_bit (nat (idx mod 8)) 1]\<rparr>"
    by (auto simp: set_bit_bf_def Let_def split: option.splits)
  from assms(2) obtain k where k: "py_index (bits bf) (i div 8) = Some k"
    and b: "bit (bits bf ! k) (nat (i mod 8))"
    by (auto simp: get_bit_bf_1)
  have k': "py_index (bits bf') (i div 8) = Some k"
    using k by (simp add: bf')
  have "bit (bits bf' ! k) (nat (i mod 8))"
  proof (cases "k = j")
    case True
    then show ?thesis
      using b py_index_lt [OF j] by (simp add: bf' byte_or_bit [OF mod8_lt])
  next
    case False
    then show ?thesis using b by (simp add: bf')
  qed
  then show ?thesis
    using k' by (simp add: get_bit_bf_def Let_def byte_test_bit)
qed

lemma set_when_set:
  assumes "get_bit_bf bf idx = Inr 1"
  shows "set_bit_bf bf idx = Inr bf"
proof -
  from assms obtain k where k: "py_index (bits bf) (idx div 8) = Some k"
    and b: "bit (bits bf ! k) (nat (idx mod 8))"
    by (auto simp: get_bit_bf_1)
  have "(bits bf)[k := (bits bf ! k) OR push_bit (nat (idx mod 8)) 1] = bits bf"
    using byte_or_absorb [OF b] by simp
  then show ?thesis
    using k by (simp add: set_bit_bf_def Let_def)
qed

lemma all_set_Cons:
  "all_set bf (x # ps) \<longleftrightarrow> (\<exists>pos. x = Inr pos \<and> get_bit_bf bf pos = Inr 1) \<and> all_set bf ps"
  by (simp add: all_set_def)

lemma add_loop_fields:
  "add_loop bf ps = Inr bf' \<Longrightarrow>
     size_bf bf' = size_bf bf \<and> num_hashes bf' = num_hashes bf \<and>
     length (bits bf') = length (bits bf)"
proof (induction bf ps rule: add_loop.induct)
  case (1 bf)
  then show ?case by simp
next
  case (2 bf e ps)
  then show ?case by simp
next
  case (3 bf pos ps)
  from "3.prems" obtain bf1 where s: "set_bit_bf bf pos = Inr bf1"
    and l: "add_loop bf1 ps = Inr bf'"
    by (cases "set_bit_bf bf pos") simp_all
  show ?case
    using "3.IH" [OF s l] set_bit_bf_fields [OF s] by simp
qed

lemma add_loop_mono:
  "add_loop bf ps = Inr bf' \<Longrightarrow> get_bit_bf bf i = Inr 1 \<Longrightarrow> get_bit_bf bf' i = Inr 1"
proof (induction bf ps rule: add_loop.induct)
  case (1 bf)
  then show ?case by simp
next
  case (2 bf e ps)
  then show ?case by simp
next
  case (3 bf pos ps)
  from "3.prems"(1) obtain bf1 where s: "set_bit_bf bf pos = Inr bf1"
    and l: "add_loop bf1 ps = Inr bf'"
    by (cases "set_bit_bf bf pos") simp_all
  show ?case
    using "3.IH" [OF s l get_mono_set [OF s "3.prems"(2)]] .
qed

lemma add_loop_all_set:
  "add_loop bf ps = Inr bf' \<Longrightarrow> all_set bf' ps"
proof (induction bf ps rule: add_loop.induct)
  case (1 bf)
  then show ?case by (simp add: all_set_def)
next
  case (2 bf e ps)
  then show ?case by simp
next
  case (3 bf pos ps)
  from "3.prems" obtain bf1 where s: "set_bit_bf bf pos = Inr bf1"
    and l: "add_loop bf1 ps = Inr bf'"
    by (cases "set_bit_bf bf pos") simp_all
  have "get_bit_bf bf' pos = Inr 1"
    using add_loop_mono [OF l get_after_set [OF s]] .
  moreover have "all_set bf' ps"
    using "3.IH" [OF s l] .
  ultimately show ?case by (simp add: all_set_Cons)
qed

lemma contains_loop_all_set:
  "all_set bf ps \<Longrightarrow> contains_loop bf ps = Inr True"
proof (induction ps)
  case Nil
  then show ?case by simp
next
  case (Cons x ps)
  then obtain pos where "x = Inr pos" "get_bit_bf bf pos = Inr 1" "all_set bf ps"
    by (auto simp: all_set_Cons)
  with Cons.IH show ?case by simp
qed

lemma add_loop_when_set:
  "all_set bf ps \<Longrightarrow> add_loop bf ps = Inr bf"
proof (induction ps)
  case Nil
  then show ?case by simp
next
  case (Cons x ps)
  then obtain pos where "x = Inr pos" "get_bit_bf bf pos = Inr 1" "all_set bf ps"
    by (auto simp: all_set_Cons)
  with Cons.IH show ?case by (simp add: set_when_set)
qed

lemma hash_positions_cong:
  "size_bf bf' = size_bf bf \<Longrightarrow> num_hashes bf' = num_hashes bf \<Longrightarrow>
     hash_positions H bf' s = hash_positions H bf s"
  by (simp add: hash_positions_def)

lemma add_then_contains:
  assumes "BloomFilter_add H bf (PStr s) = Inr bf'"
  shows "BloomFilter_contains H bf' (PStr s) = Inr True"
proof -
  from assms have l: "add_loop bf (hash_positions H bf s) = Inr bf'"
    by (simp add: BloomFilter_add_def)
  have "hash_positions H bf' s = hash_positions H bf s"
    using add_loop_fields [OF l] by (intro hash_positions_cong) simp_all
  then show ?thesis
    using add_loop_all_set [OF l] by (simp add: BloomFilter_contains_def contains_loop_all_set)
qed

lemma add_twice:
  assumes "BloomFilter_add H bf (PStr s) = Inr bf'"
  shows "BloomFilter_add H bf' (PStr s) = Inr bf'"
proof -
  from assms have l: "add_loop bf (hash_positions H bf s) = Inr bf'"
    by (simp add: BloomFilter_add_def)
  have "hash_positions H bf' s = hash_positions H bf s"
    using add_loop_fields [OF l] by (intro hash_positions_cong) simp_all
  then show ?thesis
    using add_loop_all_set [OF l] by (simp add: BloomFilter_add_def add_loop_when_set)
qed

lemma in_range_Cons:
  "in_range bf (x # ps) \<longleftrightarrow>
     (\<exists>pos. x = Inr pos \<and> 0 \<le> pos \<and> pos < size_bf bf) \<and> in_range bf ps"
  by (simp add: in_range_def)

lemma bf_inv_index:
  assumes "bf_inv bf" and "0 \<le> pos" and "pos < size_bf bf"
  shows "py_index (bits bf) (pos div 8) = Some (nat (pos div 8))"
proof -
  have "0 \<le> pos div 8" using assms(2) by simp
  moreover have "pos div 8 < (size_bf bf + 7) div 8"
    using assms(2,3) by linarith
  ultimately show ?thesis
    using assms(1) by (simp add: py_index_def bf_inv_def)
qed

lemma set_bit_bf_inv:
  assumes "bf_inv bf" and "0 \<le> pos" and "pos < size_bf bf"
  shows "\<exists>bf'. set_bit_bf bf pos = Inr bf' \<and> bf_inv bf'"
  using bf_inv_index [OF assms] assms(1)
  by (simp add: set_bit_bf_def Let_def bf_inv_def)

lemma get_bit_bf_inv:
  assumes "bf_inv bf" and "0 \<le> pos" and "pos < size_bf bf"
  shows "\<exists>b. get_bit_bf bf pos = Inr b"
  using bf_inv_index [OF assms]
  by (simp add: get_bit_bf_def Let_def)

lemma add_loop_total:
  "bf_inv bf \<Longrightarrow> in_range bf ps \<Longrightarrow> \<exists>bf'. add_loop bf ps = Inr bf' \<and> bf_inv bf'"
proof (induction ps arbitrary: bf)
  case Nil
  then show ?case by simp
next
  case (Cons x ps)
  from Cons.prems(2) obtain pos where x: "x = Inr pos" and p: "0 \<le> pos" "pos < size_bf bf"
    and r: "in_range bf ps"
    by (auto simp: in_range_Cons)
  from set_bit_bf_inv [OF Cons.prems(1) p] obtain bf1
    where s: "set_bit_bf bf pos = Inr bf1" and i: "bf_inv bf1"
    by blast
  have "in_range bf1 ps"
    using r set_bit_bf_fields [OF s] by (simp add: in_range_def)
  from Cons.IH [OF i this] show ?case
    by (simp add: x s)
qed

lemma contains_loop_total:
  "bf_inv bf \<Longrightarrow> in_range bf ps \<Longrightarrow> \<exists>b. contains_loop bf ps = Inr b"
proof (induction ps)
  case Nil
  show ?case by (rule exI [of _ True]) simp
next
  case (Cons x ps)
  from Cons.prems(2) obtain pos where x: "x = Inr pos" and p: "0 \<le> pos" "pos < size_bf bf"
    and r: "in_range bf ps"
    by (auto simp: in_range_Cons)
  from get_bit_bf_inv [OF Cons.prems(1) p] obtain b where g: "get_bit_bf bf pos = Inr b"
    by blast
  from Cons.IH [OF Cons.prems(1) r] obtain c where c: "contains_loop bf ps = Inr c"
    by blast
  show ?case
  proof (cases "b = 0")
    case True
    then show ?thesis by (intro exI [of _ False]) (simp add: x g)
  next
    case False
    then show ?thesis by (intro exI [of _ c]) (simp add: x g c)
  qed
qed

lemma py_mod_pos:
  "0 < sz \<Longrightarrow> \<exists>pos. py_mod a sz = Inr pos \<and> 0 \<le> pos \<and> pos < sz"
  by (simp add: py_mod_def)

lemma hash_positions_in_range:
  assumes "bf_inv bf"
  shows "in_range bf (hash_positions H bf s)"
proof -
  have sz: "0 < size_bf bf" using assms by (simp add: bf_inv_def)
  show ?thesis
    unfolding in_range_def hash_positions_def hash_loop_map
    using py_mod_pos [OF sz] by auto
qed

lemma BloomFilter_init_inv:
  "BloomFilter_init a b = Inr bf \<Longrightarrow> bf_inv bf"
  by (auto simp: BloomFilter_init_def bf_inv_def split: option.splits if_splits)

lemma BloomFilter_add_total:
  assumes "bf_inv bf"
  shows "\<exists>bf'. BloomFilter_add H bf (PStr s) = Inr bf' \<and> bf_inv bf'"
  using add_loop_total [OF assms hash_positions_in_range [OF assms]]
  by (simp add: BloomFilter_add_def)

lemma BloomFilter_contains_total:
  assumes "bf_inv bf"
  shows "\<exists>b. BloomFilter_contains H bf (PStr s) = Inr b"
  using contains_loop_total [OF assms hash_positions_in_range [OF assms]]
  by (simp add: BloomFilter_contains_def)

lemma reachable_inv: "reachable H bf \<Longrightarrow> bf_inv bf"
proof (induction rule: reachable.induct)
  case (init size_arg num_hashes_arg bf)
  then show ?case by (rule BloomFilter_init_inv)
next
  case (add bf s bf')
  from BloomFilter_add_total [OF add.IH, of H s] add.hyps(2) show ?case by auto
qed

section \<open>The sample filter, evaluated\<close>

lemma sample_h1_empty: "hash_h1 sample_hashlib [] mod 8 = 5"
  by (simp add: hash_h1_def sample_hashlib_def encode_utf8_def from_bytes_big_def)

lemma hash_loop_once: "hash_loop 0 1 h1 h2 sz = [py_mod h1 sz]"
  by (simp add: hash_loop_map upto_rec1)

lemma sample_positions_empty:
  "hash_positions sample_hashlib \<lparr>size_bf = 8, num_hashes = 1, bits = bs\<rparr> [] = [Inr 5]"
  by (simp add: hash_positions_def hash_loop_once py_mod_def sample_h1_empty)

lemma sample_add_empty:
  "BloomFilter_add sample_hashlib \<lparr>size_bf = 8, num_hashes = 1, bits = [0]\<rparr> (PStr []) =
     Inr \<lparr>size_bf = 8, num_hashes = 1, bits = [32]\<rparr>"
  by (simp add: BloomFilter_add_def sample_positions_empty set_bit_bf_def py_index_def)

lemma sample_contains_empty:
  "BloomFilter_contains sample_hashlib \<lparr>size_bf = 8, num_hashes = 1, bits = [0]\<rparr> (PStr []) =
     Inr False"
  by (simp add: BloomFilter_contains_def sample_positions_empty get_bit_bf_def py_index_def)

section \<open>Which errors the filter operations raise\<close>

lemma add_loop_not_TypeError: "add_loop bf ps \<noteq> Inl TypeError \<or> Inl TypeError \<in> set ps"
proof (induction bf ps rule: add_loop.induct)
  case (1 bf)
  then show ?case by simp
next
  case (2 bf e ps)
  then show ?case by auto
next
  case (3 bf pos ps)
  show ?case
  proof (cases "set_bit_bf bf pos")
    case (Inl e)
    then have "e = IndexError"
      by (auto simp: set_bit_bf_def Let_def split: option.splits)
    with Inl show ?thesis by simp
  next
    case (Inr bf1)
    with "3.IH" [OF Inr] show ?thesis by auto
  qed
qed

lemma contains_loop_not_TypeError:
  "contains_loop bf ps \<noteq> Inl TypeError \<or> Inl TypeError \<in> set ps"
proof (induction bf ps rule: contains_loop.induct)
  case (1 bf)
  then show ?case by simp
next
  case (2 bf e ps)
  then show ?case by auto
next
  case (3 bf pos ps)
  show ?case
  proof (cases "get_bit_bf bf pos")
    case (Inl e)
    then have "e = IndexError"
      by (auto simp: get_bit_bf_def Let_def split: option.splits)
    with Inl show ?thesis by simp
  next
    case (Inr b)
    with "3.IH" [OF Inr] show ?thesis by (cases "b = 0") auto
  qed
qed

lemma py_mod_not_TypeError: "py_mod a b \<noteq> Inl TypeError"
  by (simp add: py_mod_def)

lemma hash_positions_no_TypeError: "Inl TypeError \<notin> set (hash_positions H bf s)"
proof
  assume "Inl TypeError \<in> set (hash_positions H bf s)"
  then obtain j where "py_mod (hash_h1 H s + j * hash_h2 H s) (size_bf bf) = Inl TypeError"
    unfolding hash_positions_def hash_loop_map by auto
  then show False by (simp add: py_mod_not_TypeError)
qed

section \<open>Digests as integers\<close>

lemma foldl_bytes_bounds:
  "0 \<le> a \<Longrightarrow>
     0 \<le> foldl (\<lambda>acc b. acc * 256 + uint (b::byte)) a d \<and>
     foldl (\<lambda>acc b. acc * 256 + uint b) a d < (a + 1) * 256 ^ length d"
proof (induction d arbitrary: a)
  case Nil
  then show ?case by simp
next
  case (Cons b d)
  have b: "0 \<le> uint b" "uint b \<le> 255"
    using uint_lt2p [of b] by simp_all
  have a': "0 \<le> a * 256 + uint b" using Cons.prems b by simp
  have le: "(a * 256 + uint b + 1) * 256 ^ length d \<le> ((a + 1) * 256) * 256 ^ length d"
    using b by (intro mult_right_mono) simp_all
  have lt: "foldl (\<lambda>acc b. acc * 256 + uint b) (a * 256 + uint b) d
              < (a * 256 + uint b + 1) * 256 ^ length d"
    and nn: "0 \<le> foldl (\<lambda>acc b. acc * 256 + uint b) (a * 256 + uint b) d"
    using Cons.IH [OF a'] by simp_all
  have "foldl (\<lambda>acc b. acc * 256 + uint b) (a * 256 + uint b) d
          < (a + 1) * 256 ^ length (b # d)"
    using less_le_trans [OF lt le] by (simp only: length_Cons power_Suc mult.assoc)
  with nn show ?case by simp
qed

lemma from_bytes_big_bounds:
  "0 \<le> from_bytes_big d \<and> from_bytes_big d < 256 ^ length d"
  using foldl_bytes_bounds [of 0 d] by (simp add: from_bytes_big_def)

lemma foldl_bytes_shift:
  "foldl (\<lambda>acc b. acc * 256 + uint (b::byte)) a d =
     a * 256 ^ length d + foldl (\<lambda>acc b. acc * 256 + uint b) 0 d"
proof (induction d arbitrary: a)
  case Nil
  then show ?case by simp
next
  case (Cons b d)
  show ?case
    using Cons.IH [of "a * 256 + uint b"] Cons.IH [of "uint b"]
    by (simp add: algebra_simps)
qed

text \<open>Big-endian: the first byte is the most significant.\<close>

lemma from_bytes_big_Cons:
  "from_bytes_big (b # d) = uint b * 256 ^ length d + from_bytes_big d"
  using foldl_bytes_shift [of "uint b" d] by (simp add: from_bytes_big_def)

lemma hash_h1_bounds:
  assumes "digest_sizes H"
  shows "0 \<le> hash_h1 H item \<and> hash_h1 H item < 2 ^ 256"
proof -
  have "length (sha256 H (encode_utf8 item)) = 32"
    using assms by (simp add: digest_sizes_def)
  with from_bytes_big_bounds [of "sha256 H (encode_utf8 item)"]
  have "0 \<le> hash_h1 H item \<and> hash_h1 H item < 256 ^ 32"
    by (simp add: hash_h1_def)
  then show ?thesis by simp
qed

lemma hash_h2_bounds:
  assumes "digest_sizes H"
  shows "0 < hash_h2 H item \<and> hash_h2 H item < 2 ^ 128"
proof -
  have "length (md5 H (encode_utf8 item)) = 16"
    using assms by (simp add: digest_sizes_def)
  with from_bytes_big_bounds [of "md5 H (encode_utf8 item)"]
  have "0 \<le> from_bytes_big (md5 H (encode_utf8 item)) \<and>
        from_bytes_big (md5 H (encode_utf8 item)) < 256 ^ 16"
    by simp
  then show ?thesis by (simp add: hash_h2_def Let_def)
qed

lemma length_upto: "length [0..n - 1] = nat n"
  by simp

lemma sample_digest_sizes: "digest_sizes sample_hashlib"
  by (simp add: digest_sizes_def sample_hashlib_def)

section \<open>Insertions only add bits\<close>

lemma get_bit_bf_01: "get_bit_bf bf pos = Inr b \<Longrightarrow> b = 0 \<or> b = 1"
  by (cases "py_index (bits bf) (pos div 8)")
     (auto simp: get_bit_bf_def Let_def byte_test_bit split: if_splits)

lemma contains_loop_True_all_set:
  "contains_loop bf ps = Inr True \<Longrightarrow> all_set bf ps"
proof (induction bf ps rule: contains_loop.induct)
  case (1 bf)
  then show ?case by (simp add: all_set_def)
next
  case (2 bf e ps)
  then show ?case by simp
next
  case (3 bf pos ps)
  from "3.prems" obtain b where g: "get_bit_bf bf pos = Inr b"
    by (cases "get_bit_bf bf pos") simp_all
  with "3.prems" have nz: "b \<noteq> 0" and l: "contains_loop bf ps = Inr True"
    by (auto split: if_splits)
  from get_bit_bf_01 [OF g] nz have "b = 1" by simp
  with g "3.IH" [OF g nz l] show ?case by (simp add: all_set_Cons)
qed

lemma all_set_mono:
  assumes "add_loop bf qs = Inr bf'" and "all_set bf ps"
  shows "all_set bf' ps"
  using assms(2) add_loop_mono [OF assms(1)] unfolding all_set_def by blast

lemma add_keeps_contains:
  assumes "BloomFilter_add H bf (PStr s) = Inr bf'"
    and "BloomFilter_contains H bf (PStr q) = Inr True"
  shows "BloomFilter_contains H bf' (PStr q) = Inr True"
proof -
  from assms(1) have l: "add_loop bf (hash_positions H bf s) = Inr bf'"
    by (simp add: BloomFilter_add_def)
  have e: "hash_positions H bf' q = hash_positions H bf q"
    using add_loop_fields [OF l] by (intro hash_positions_cong) simp_all
  from assms(2) have "all_set bf (hash_positions H bf q)"
    by (simp add: BloomFilter_contains_def contains_loop_True_all_set)
  from all_set_mono [OF l this] show ?thesis
    by (simp add: BloomFilter_contains_def e contains_loop_all_set)
qed

section \<open>The classification loop\<close>

lemma key_is_py_str:
  "(case isinstance_str p of Some s \<Rightarrow> Inr s | None \<Rightarrow> py_str p) = py_str p"
  by (cases p) simp_all

lemma py_str_Inl:
  "py_str p = Inl e \<longleftrightarrow> e = ValueError \<and> (\<exists>n. p = PInt n \<and> 10 ^ max_str_digits \<le> \<bar>n\<bar>)"
  by (cases p) auto

lemma py_str_PStr: "py_str (PStr s) = Inr s"
  by simp

lemma py_str_digit:
  assumes "0 \<le> n" and "n < 10"
  shows "py_str (PInt n) = Inr [48 + nat n]"
proof -
  have "(10::int) ^ 1 \<le> 10 ^ max_str_digits"
    by (rule power_increasing) (simp_all add: max_str_digits_def)
  with assms have "\<not> 10 ^ max_str_digits \<le> \<bar>n\<bar>" by simp
  with assms show ?thesis by (simp add: digits_of.simps)
qed

lemma classify_step_raises:
  "py_str p = Inl e \<Longrightarrow> classify_step H a st p = Inl e"
  by (simp add: classify_step_def key_is_py_str)

lemma classify_step_Inr_str:
  "classify_step H a st p = Inr st' \<Longrightarrow> \<exists>key. py_str p = Inr key"
  by (cases "py_str p") (simp_all add: classify_step_raises)

lemma classify_step_invalid:
  "invalid_candidate p \<Longrightarrow> py_str p = Inr key \<Longrightarrow>
     classify_step H a (bloom, results) p =
       Inr (bloom, AList.update key status_invalid results)"
  by (simp add: classify_step_def key_is_py_str)

lemma invalid_candidate_PStr: "invalid_candidate (PStr s) \<longleftrightarrow> strip s = []"
  by (simp add: invalid_candidate_def)

lemma invalid_candidate_cases:
  "invalid_candidate p \<longleftrightarrow> isinstance_str p = None \<or> (\<exists>s. p = PStr s \<and> strip s = [])"
  by (cases p) (simp_all add: invalid_candidate_def)

lemma strip_empty_iff: "strip s = [] \<longleftrightarrow> (\<forall>c \<in> set s. is_space c)"
proof
  assume "strip s = []"
  then have a: "\<forall>x \<in> set (dropWhile is_space s). is_space x"
    by (simp add: strip_def dropWhile_eq_Nil_conv)
  have "dropWhile is_space s = []"
  proof (rule ccontr)
    assume n: "dropWhile is_space s \<noteq> []"
    then have "\<not> is_space (hd (dropWhile is_space s))"
      by (rule hd_dropWhile)
    moreover have "hd (dropWhile is_space s) \<in> set (dropWhile is_space s)"
      using n by (rule hd_in_set)
    ultimately show False using a by blast
  qed
  then show "\<forall>c \<in> set s. is_space c"
    by (simp add: dropWhile_eq_Nil_conv)
next
  assume "\<forall>c \<in> set s. is_space c"
  then have d: "dropWhile is_space s = []"
    by (simp add: dropWhile_eq_Nil_conv)
  show "strip s = []"
    unfolding strip_def d by simp
qed

lemma classify_step_valid:
  assumes "\<not> invalid_candidate (PStr s)"
  shows "classify_step H a (bloom, results) (PStr s) =
     (case BloomFilter_contains H bloom (PStr s) of
        Inl e \<Rightarrow> Inl e
      | Inr c \<Rightarrow>
          if c then Inr (bloom, AList.update s status_duplicate results)
          else if a then
            (case BloomFilter_add H bloom (PStr s) of
               Inl e \<Rightarrow> Inl e
             | Inr bloom' \<Rightarrow> Inr (bloom', AList.update s status_unique results))
          else Inr (bloom, AList.update s status_unique results))"
  using assms by (simp add: classify_step_def split: sum.splits)

lemma grows_refl: "grows H bf bf"
  by (simp add: grows_def)

lemma grows_trans: "grows H a b \<Longrightarrow> grows H b c \<Longrightarrow> grows H a c"
  by (simp add: grows_def)

lemma grows_add: "BloomFilter_add H bf (PStr s) = Inr bf' \<Longrightarrow> grows H bf bf'"
  unfolding grows_def using add_keeps_contains by blast

lemma classify_step_total:
  assumes "bf_inv bloom" and "py_str p = Inr key"
  shows "\<exists>bloom' results'. classify_step H a (bloom, results) p = Inr (bloom', results') \<and>
           bf_inv bloom' \<and> grows H bloom bloom'"
proof (cases "invalid_candidate p")
  case True
  with assms show ?thesis
    by (simp add: classify_step_invalid grows_refl)
next
  case False
  then obtain s where p: "p = PStr s"
    by (cases p) (simp_all add: invalid_candidate_def)
  from BloomFilter_contains_total [OF assms(1), of H s] obtain c
    where c: "BloomFilter_contains H bloom (PStr s) = Inr c" by blast
  from BloomFilter_add_total [OF assms(1), of H s] obtain b1
    where b1: "BloomFilter_add H bloom (PStr s) = Inr b1" "bf_inv b1" by blast
  show ?thesis
  proof (cases "c \<or> \<not> a")
    case True
    then show ?thesis
      using False assms(1) unfolding p
      by (auto simp: classify_step_valid c grows_refl)
  next
    case False
    then have "classify_step H a (bloom, results) p =
                 Inr (b1, AList.update s status_unique results)"
      using \<open>\<not> invalid_candidate p\<close> unfolding p
      by (simp add: classify_step_valid c b1)
    with b1 grows_add [OF b1(1)] show ?thesis by simp
  qed
qed

lemma classify_step_inserts:
  assumes "\<not> invalid_candidate (PStr s)"
    and "classify_step H True (bloom, results) (PStr s) = Inr (bloom', results')"
  shows "BloomFilter_contains H bloom' (PStr s) = Inr True"
proof (cases "BloomFilter_contains H bloom (PStr s)")
  case (Inl e)
  with assms show ?thesis by (simp add: classify_step_valid)
next
  case (Inr c)
  show ?thesis
  proof (cases c)
    case True
    with Inr assms show ?thesis by (simp add: classify_step_valid)
  next
    case False
    with Inr assms obtain b1 where b1: "BloomFilter_add H bloom (PStr s) = Inr b1"
      and "bloom' = b1"
      by (cases "BloomFilter_add H bloom (PStr s)") (simp_all add: classify_step_valid)
    with add_then_contains [OF b1] show ?thesis by simp
  qed
qed

lemma classify_loop_append:
  "classify_loop H a st (xs @ ys) =
     (case classify_loop H a st xs of Inl e \<Rightarrow> Inl e | Inr st' \<Rightarrow> classify_loop H a st' ys)"
proof (induction xs arbitrary: st)
  case Nil
  then show ?case by simp
next
  case (Cons x xs)
  then show ?case by (cases "classify_step H a st x") simp_all
qed

lemma classify_loop_Inr_str:
  "classify_loop H a st ps = Inr st' \<Longrightarrow> \<forall>p \<in> set ps. \<exists>key. py_str p = Inr key"
proof (induction ps arbitrary: st)
  case Nil
  then show ?case by simp
next
  case (Cons p ps)
  show ?case
  proof (cases "classify_step H a st p")
    case (Inl e)
    with Cons.prems show ?thesis by simp
  next
    case (Inr st1)
    with Cons.prems have "classify_loop H a st1 ps = Inr st'" by simp
    from Cons.IH [OF this] classify_step_Inr_str [OF Inr] show ?thesis by simp
  qed
qed

lemma classify_loop_total:
  "bf_inv bloom \<Longrightarrow> \<forall>p \<in> set ps. \<exists>key. py_str p = Inr key \<Longrightarrow>
     \<exists>bloom' results'. classify_loop H a (bloom, results) ps = Inr (bloom', results') \<and>
       bf_inv bloom' \<and> grows H bloom bloom'"
proof (induction ps arbitrary: bloom results)
  case Nil
  then show ?case by (simp add: grows_refl)
next
  case (Cons p ps)
  from Cons.prems(2) obtain key where k: "py_str p = Inr key" by auto
  from Cons.prems(2) have rest: "\<forall>p \<in> set ps. \<exists>key. py_str p = Inr key" by simp
  from classify_step_total [OF Cons.prems(1) k, of H a results] obtain b1 r1
    where s: "classify_step H a (bloom, results) p = Inr (b1, r1)"
      and i: "bf_inv b1" and g: "grows H bloom b1"
    by blast
  from Cons.IH [OF i rest, of r1] obtain b2 r2
    where l: "classify_loop H a (b1, r1) ps = Inr (b2, r2)"
      and i2: "bf_inv b2" and g2: "grows H b1 b2"
    by blast
  from grows_trans [OF g g2] i2 show ?case
    by (simp add: s l)
qed

lemma classify_loop_inserts:
  "bf_inv bloom \<Longrightarrow> \<not> invalid_candidate (PStr s) \<Longrightarrow> PStr s \<in> set ps \<Longrightarrow>
     classify_loop H True (bloom, results) ps = Inr (bloom', results') \<Longrightarrow>
     BloomFilter_contains H bloom' (PStr s) = Inr True"
proof (induction ps arbitrary: bloom results)
  case Nil
  then show ?case by simp
next
  case (Cons p ps)
  from classify_loop_Inr_str [OF Cons.prems(4)] obtain key where k: "py_str p = Inr key"
    and rest: "\<forall>p \<in> set ps. \<exists>key. py_str p = Inr key"
    by auto
  from classify_step_total [OF Cons.prems(1) k, of H True results] obtain b1 r1
    where st: "classify_step H True (bloom, results) p = Inr (b1, r1)"
      and i: "bf_inv b1"
    by blast
  from Cons.prems(4) have l: "classify_loop H True (b1, r1) ps = Inr (bloom', results')"
    by (simp add: st)
  show ?case
  proof (cases "PStr s \<in> set ps")
    case True
    from Cons.IH [OF i Cons.prems(2) True l] show ?thesis .
  next
    case False
    with Cons.prems(3) have p: "p = PStr s" by simp
    from classify_step_inserts [OF Cons.prems(2) st [unfolded p]]
    have c: "BloomFilter_contains H b1 (PStr s) = Inr True" .
    from classify_loop_total [OF i rest, of H True r1] l have "grows H b1 bloom'"
      by auto
    with c show ?thesis by (simp add: grows_def)
  qed
qed

lemma sample_h1_a: "hash_h1 sample_hashlib [97] mod 8 = 3"
  by (simp add: hash_h1_def sample_hashlib_def encode_utf8_def encode_char_def from_bytes_big_def)

lemma sample_positions_a:
  "hash_positions sample_hashlib \<lparr>size_bf = 8, num_hashes = 1, bits = bs\<rparr> [97] = [Inr 3]"
  by (simp add: hash_positions_def hash_loop_once py_mod_def sample_h1_a)

lemma valid_a: "\<not> invalid_candidate (PStr [97])"
  by (simp add: invalid_candidate_def strip_def is_space_def)

lemma sample_reachable: "reachable sample_hashlib \<lparr>size_bf = 8, num_hashes = 1, bits = [0]\<rparr>"
  by (rule reachable.init [of "PInt 8" "PInt 1"]) (simp add: BloomFilter_init_def)

lemma sample_batch_aa:
  "check_password_uniqueness sample_hashlib \<lparr>size_bf = 8, num_hashes = 1, bits = [0]\<rparr>
     [PStr [97], PStr [97]] True =
   Inr (\<lparr>size_bf = 8, num_hashes = 1, bits = [8]\<rparr>, [([97], status_duplicate)])"
  by (simp add: check_password_uniqueness_def classify_step_valid valid_a
        BloomFilter_contains_def BloomFilter_add_def sample_positions_a
        get_bit_bf_def set_bit_bf_def py_index_def)

text \<open>
  A batch that holds an integer of 4301 digits between two occurrences of a string:
  the call raises at the integer and returns no dictionary.
\<close>

lemma sample_batch_huge_int:
  "check_password_uniqueness sample_hashlib \<lparr>size_bf = 8, num_hashes = 1, bits = [0]\<rparr>
     [PStr [97], PInt (10 ^ max_str_digits), PStr [97]] True = Inl ValueError"
proof -
  have "py_str (PInt (10 ^ max_str_digits)) = Inl ValueError" by simp
  from classify_step_raises [OF this] show ?thesis
    by (simp add: check_password_uniqueness_def classify_step_valid valid_a
          BloomFilter_contains_def BloomFilter_add_def sample_positions_a
          get_bit_bf_def set_bit_bf_def py_index_def)
qed

lemma invalid_fold:
  "\<forall>p \<in> set ps. invalid_candidate p \<and> (\<exists>key. py_str p = Inr key) \<Longrightarrow>
     classify_loop H a (bloom, results) ps =
       Inr (bloom, foldl (\<lambda>r p. AList.update (projr (py_str p)) status_invalid r) results ps)"
proof (induction ps arbitrary: results)
  case Nil
  then show ?case by simp
next
  case (Cons p ps)
  from Cons.prems obtain key where i: "invalid_candidate p" and k: "py_str p = Inr key"
    by auto
  from Cons.prems have rest: "\<forall>p \<in> set ps. invalid_candidate p \<and> (\<exists>key. py_str p = Inr key)"
    by simp
  show ?case
    by (simp add: classify_step_invalid [OF i k] Cons.IH [OF rest] k)
qed

lemma map_of_invalid_fold:
  "map_of (foldl (\<lambda>r p. AList.update (projr (py_str p)) status_invalid r) results ps) k =
     (if k \<in> (\<lambda>p. projr (py_str p)) ` set ps then Some status_invalid else map_of results k)"
  by (induction ps arbitrary: results) (simp_all add: update_conv')

section \<open>The estimator: constructor, bit length and update\<close>

lemma HyperLogLog_init_Inr:
  assumes "isinstance_int p_arg = Some p" and "4 \<le> p" and "p \<le> 20"
  shows "HyperLogLog_init p_arg =
           Inr \<lparr>p_hll = p, m_hll = 2 ^ nat p, registers = replicate (2 ^ nat p) 0,
                alpha = alpha_of (2 ^ nat p)\<rparr>"
  using assms by (simp add: HyperLogLog_init_def Let_def alpha_of_def)

lemma HyperLogLog_init_Inl:
  assumes "isinstance_int p_arg = None \<or> (\<exists>p. isinstance_int p_arg = Some p \<and> (p < 4 \<or> 20 < p))"
  shows "HyperLogLog_init p_arg = Inl ValueError"
  using assms by (auto simp: HyperLogLog_init_def)

lemma bit_length_nat_bounds:
  "0 < n \<Longrightarrow> 2 ^ (bit_length_nat n - 1) \<le> n \<and> n < 2 ^ bit_length_nat n"
proof (induction n rule: bit_length_nat.induct)
  case (1 n)
  show ?case
  proof (cases "n div 2 = 0")
    case True
    with "1.prems" have n1: "n = Suc 0" by (simp add: div_eq_0_iff)
    have "bit_length_nat (Suc 0) = Suc 0"
      by (simp add: bit_length_nat.simps [of "Suc 0"] bit_length_nat.simps [of 0])
    then show ?thesis
      by (simp add: n1)
  next
    case False
    then have pos: "0 < n div 2" by simp
    from "1.prems" have n0: "n \<noteq> 0" by simp
    from "1.IH" [OF n0 pos]
    have lo: "2 ^ (bit_length_nat (n div 2) - 1) \<le> n div 2"
      and hi: "n div 2 < 2 ^ bit_length_nat (n div 2)" by simp_all
    have L: "bit_length_nat n = Suc (bit_length_nat (n div 2))"
      using n0 by (subst bit_length_nat.simps) simp
    have Lpos: "0 < bit_length_nat (n div 2)"
      using pos by (subst bit_length_nat.simps) simp
    then obtain j where j: "bit_length_nat (n div 2) = Suc j"
      by (cases "bit_length_nat (n div 2)") simp_all
    have "2 * 2 ^ j \<le> 2 * (n div 2)" using lo by (simp add: j)
    then have a: "2 ^ Suc j \<le> n" by (simp; linarith)
    have "n div 2 + 1 \<le> 2 ^ Suc j" using hi by (simp add: j)
    then have "2 * (n div 2) + 2 \<le> 2 * 2 ^ Suc j" by simp
    then have b: "n < 2 ^ Suc (Suc j)" by (simp; linarith)
    show ?thesis using a b by (simp add: L j)
  qed
qed

lemma bit_length_bounds:
  assumes "0 < w"
  shows "1 \<le> bit_length w \<and> 2 ^ nat (bit_length w - 1) \<le> w \<and> w < 2 ^ nat (bit_length w)"
proof -
  define n where "n = nat w"
  have n: "0 < n" "w = int n" using assms by (simp_all add: n_def)
  have L: "bit_length w = int (bit_length_nat n)"
    using assms by (simp add: bit_length_def n_def)
  have Lpos: "0 < bit_length_nat n"
    using n(1) by (subst bit_length_nat.simps) simp
  from bit_length_nat_bounds [OF n(1)]
  have "int (2 ^ (bit_length_nat n - 1)) \<le> int n" and "int n < int (2 ^ bit_length_nat n)"
    by (simp_all only: of_nat_le_iff of_nat_less_iff)
  then have "2 ^ (bit_length_nat n - 1) \<le> w" and "w < 2 ^ bit_length_nat n"
    by (simp_all add: n(2))
  moreover have "nat (bit_length w - 1) = bit_length_nat n - 1"
    using Lpos by (simp add: L)
  ultimately show ?thesis using Lpos by (simp add: L)
qed

lemma bit_length_le:
  assumes "0 < w" and "w < 2 ^ k"
  shows "bit_length w \<le> int k"
proof -
  from bit_length_bounds [OF assms(1)]
  have b: "(2::int) ^ nat (bit_length w - 1) \<le> w" and one: "1 \<le> bit_length w"
    by simp_all
  from b assms(2) have "(2::int) ^ nat (bit_length w - 1) < 2 ^ k"
    by (rule le_less_trans)
  then have "nat (bit_length w - 1) < k"
    by (simp only: power_strict_increasing_iff one_less_numeral_iff semiring_norm)
  with one show ?thesis by linarith
qed

lemma and_low_bits: "(x::int) AND (2 ^ k - 1) = x mod 2 ^ k"
  by (simp add: mask_eq_exp_minus_1 [symmetric] take_bit_eq_mask [symmetric] take_bit_eq_mod)

lemma div_less_of_less_mult:
  fixes x a b :: int
  assumes "x < a * b" and "0 < b"
  shows "x div b < a"
proof -
  have "x div b * b + x mod b = x" by simp
  moreover have "0 \<le> x mod b" using assms(2) by simp
  ultimately have "x div b * b \<le> x" by linarith
  with assms(1) have "x div b * b < a * b" by simp
  with assms(2) show ?thesis by (simp only: mult_less_cancel_right_pos)
qed

lemma hash64_bounds:
  assumes "digest_sizes H"
  shows "0 \<le> hash64 H item \<and> hash64 H item < 2 ^ 64"
proof -
  have "length (blake2b8 H (encode_utf8 item)) = 8"
    using assms by (simp add: digest_sizes_def)
  with from_bytes_big_bounds [of "blake2b8 H (encode_utf8 item)"]
  have "0 \<le> hash64 H item \<and> hash64 H item < 256 ^ 8"
    by (simp add: hash64_def)
  then show ?thesis by simp
qed

lemma clz_bounds:
  assumes "0 \<le> w" and "w < 2 ^ k"
  shows "0 \<le> clz w (int k) \<and> clz w (int k) \<le> int k"
proof (cases "w = 0")
  case True
  then show ?thesis by (simp add: clz_def)
next
  case False
  with assms(1) have pos: "0 < w" by simp
  from bit_length_le [OF pos assms(2)] bit_length_bounds [OF pos]
  show ?thesis using False by (simp add: clz_def)
qed

lemma hll_shift_nonneg: "hll_inv h \<Longrightarrow> 0 \<le> 64 - p_hll h"
  by (simp add: hll_inv_def)

text \<open>The 64-bit hash split as \<open>add\<close> splits it, for a well-formed estimator.\<close>

lemma hll_split:
  assumes "digest_sizes H" and "hll_inv h"
  shows "0 \<le> hash64 H item div 2 ^ nat (64 - p_hll h)"
    and "hash64 H item div 2 ^ nat (64 - p_hll h) < m_hll h"
    and "0 \<le> hash64 H item mod 2 ^ nat (64 - p_hll h)"
    and "hash64 H item mod 2 ^ nat (64 - p_hll h) < 2 ^ nat (64 - p_hll h)"
proof -
  from assms(2) have p: "4 \<le> p_hll h" "p_hll h \<le> 20" and m: "m_hll h = 2 ^ nat (p_hll h)"
    by (simp_all add: hll_inv_def)
  from hash64_bounds [OF assms(1), of item]
  have x: "0 \<le> hash64 H item" "hash64 H item < 2 ^ 64" by simp_all
  show "0 \<le> hash64 H item div 2 ^ nat (64 - p_hll h)"
    using x(1) by (simp add: pos_imp_zdiv_nonneg_iff)
  have "nat (p_hll h) + nat (64 - p_hll h) = 64" using p by simp
  then have "(2::int) ^ 64 = 2 ^ nat (p_hll h) * 2 ^ nat (64 - p_hll h)"
    by (simp only: power_add [symmetric])
  with x(2) have "hash64 H item < m_hll h * 2 ^ nat (64 - p_hll h)"
    by (simp only: m)
  then show "hash64 H item div 2 ^ nat (64 - p_hll h) < m_hll h"
    by (rule div_less_of_less_mult) simp
  show "0 \<le> hash64 H item mod 2 ^ nat (64 - p_hll h)" by simp
  show "hash64 H item mod 2 ^ nat (64 - p_hll h) < 2 ^ nat (64 - p_hll h)" by simp
qed

lemma HyperLogLog_add_eq:
  assumes "digest_sizes H" and "hll_inv h"
  shows "HyperLogLog_add H h item =
     (let idx = hash64 H item div 2 ^ nat (64 - p_hll h);
          rho = clz (hash64 H item mod 2 ^ nat (64 - p_hll h)) (64 - p_hll h) + 1
      in if rho > registers h ! nat idx
         then Inr (h\<lparr>registers := (registers h)[nat idx := rho]\<rparr>)
         else Inr h)"
proof -
  note s = hll_split [OF assms, of item]
  from assms(2) have len: "length (registers h) = nat (m_hll h)"
    by (simp add: hll_inv_def)
  have i: "py_index (registers h) (hash64 H item div 2 ^ nat (64 - p_hll h)) =
             Some (nat (hash64 H item div 2 ^ nat (64 - p_hll h)))"
    using s(1,2) by (simp add: py_index_def len)
  show ?thesis
    using hll_shift_nonneg [OF assms(2)]
    by (simp add: HyperLogLog_add_def Let_def drop_bit_eq_div and_low_bits i)
qed

lemma bit_length_unique:
  assumes "0 < w" and "2 ^ L \<le> w" and "w < 2 ^ Suc L"
  shows "bit_length w = int (Suc L)"
proof -
  from bit_length_bounds [OF assms(1)]
  have one: "1 \<le> bit_length w" and lo: "2 ^ nat (bit_length w - 1) \<le> w"
    and hi: "w < 2 ^ nat (bit_length w)"
    by simp_all
  from lo assms(3) have "(2::int) ^ nat (bit_length w - 1) < 2 ^ Suc L"
    by (rule le_less_trans)
  then have a: "nat (bit_length w - 1) < Suc L"
    by (simp only: power_strict_increasing_iff one_less_numeral_iff semiring_norm)
  from assms(2) hi have "(2::int) ^ L < 2 ^ nat (bit_length w)"
    by (rule le_less_trans)
  then have b: "L < nat (bit_length w)"
    by (simp only: power_strict_increasing_iff one_less_numeral_iff semiring_norm)
  from a b one show ?thesis by linarith
qed

lemma hll_inv_init:
  assumes "HyperLogLog_init p_arg = Inr h"
  shows "hll_inv h"
proof (cases "isinstance_int p_arg")
  case None
  with assms show ?thesis by (simp add: HyperLogLog_init_def)
next
  case (Some p)
  show ?thesis
  proof (cases "4 \<le> p \<and> p \<le> 20")
    case True
    with HyperLogLog_init_Inr [OF Some] assms
    have "h = \<lparr>p_hll = p, m_hll = 2 ^ nat p, registers = replicate (2 ^ nat p) 0,
                alpha = alpha_of (2 ^ nat p)\<rparr>"
      by simp
    with True show ?thesis by (simp add: hll_inv_def)
  next
    case False
    then have "p < 4 \<or> 20 < p" by linarith
    with Some have "HyperLogLog_init p_arg = Inl ValueError"
      by (intro HyperLogLog_init_Inl) blast
    with assms show ?thesis by simp
  qed
qed

lemma hll_rho_bounds:
  assumes "digest_sizes H" and "hll_inv h"
  shows "1 \<le> clz (hash64 H item mod 2 ^ nat (64 - p_hll h)) (64 - p_hll h) + 1 \<and>
         clz (hash64 H item mod 2 ^ nat (64 - p_hll h)) (64 - p_hll h) + 1 \<le> 64 - p_hll h + 1"
proof -
  have ik: "int (nat (64 - p_hll h)) = 64 - p_hll h"
    using hll_shift_nonneg [OF assms(2)] by simp
  note s = hll_split [OF assms, of item]
  from clz_bounds [OF s(3,4)] show ?thesis
    unfolding ik by simp
qed

lemma hll_inv_add:
  assumes "digest_sizes H" and "hll_inv h" and "HyperLogLog_add H h item = Inr h'"
  shows "hll_inv h'"
proof -
  define idx where "idx = hash64 H item div 2 ^ nat (64 - p_hll h)"
  define rho where
    "rho = clz (hash64 H item mod 2 ^ nat (64 - p_hll h)) (64 - p_hll h) + 1"
  from hll_rho_bounds [OF assms(1,2), of item]
  have r: "1 \<le> rho" "rho \<le> 64 - p_hll h + 1" by (simp_all add: rho_def)
  from HyperLogLog_add_eq [OF assms(1,2), of item] assms(3)
  have "h' = h \<or> h' = h\<lparr>registers := (registers h)[nat idx := rho]\<rparr>"
    by (auto simp: Let_def idx_def rho_def split: if_splits)
  then show ?thesis
  proof
    assume "h' = h"
    with assms(2) show ?thesis by simp
  next
    assume h': "h' = h\<lparr>registers := (registers h)[nat idx := rho]\<rparr>"
    have sub: "set ((registers h)[nat idx := rho]) \<subseteq> insert rho (set (registers h))"
      by (rule set_update_subset_insert)
    have "\<forall>r \<in> set ((registers h)[nat idx := rho]). 0 \<le> r \<and> r \<le> 64 - p_hll h + 1"
    proof
      fix r' assume "r' \<in> set ((registers h)[nat idx := rho])"
      with sub have "r' = rho \<or> r' \<in> set (registers h)" by blast
      with assms(2) r show "0 \<le> r' \<and> r' \<le> 64 - p_hll h + 1"
        by (auto simp: hll_inv_def)
    qed
    with assms(2) show ?thesis
      by (simp add: hll_inv_def h')
  qed
qed

lemma hll_reachable_inv:
  assumes "digest_sizes H"
  shows "hll_reachable H h \<Longrightarrow> hll_inv h"
proof (induction rule: hll_reachable.induct)
  case (init p_arg h)
  then show ?case by (rule hll_inv_init)
next
  case (add h item h')
  from hll_inv_add [OF assms add.IH add.hyps(2)] show ?case .
qed

lemma sample_hll_inv:
  "hll_inv \<lparr>p_hll = 4, m_hll = 16, registers = replicate 16 0, alpha = 0.673\<rparr>"
  by (simp add: hll_inv_def alpha_of_def)

lemma sample_hash64_empty: "hash64 sample_hashlib [] = 16476032584258269876"
  by (simp add: hash64_def sample_hashlib_def encode_utf8_def from_bytes_big_def)

lemma sample_clz_empty: "clz 335131519762412212 60 = 1"
  using bit_length_unique [of 335131519762412212 58] by (simp add: clz_def)

section \<open>Rounding to a double\<close>

lemma round_half_even_floor: "\<lfloor>q\<rfloor> \<le> round_half_even q"
  by (simp add: round_half_even_def Let_def)

lemma round_half_even_ceiling: "round_half_even q \<le> \<lceil>q\<rceil>"
proof (cases "q - of_int \<lfloor>q\<rfloor> < 1 / 2")
  case True
  have "\<lfloor>q\<rfloor> \<le> \<lceil>q\<rceil>" by (rule floor_le_ceiling)
  with True show ?thesis by (simp add: round_half_even_def Let_def)
next
  case False
  then have "of_int \<lfloor>q\<rfloor> < q" by simp
  then have "\<lfloor>q\<rfloor> < \<lceil>q\<rceil>" by (simp only: less_ceiling_iff)
  then have "\<lfloor>q\<rfloor> + 1 \<le> \<lceil>q\<rceil>" by simp
  moreover have "round_half_even q \<le> \<lfloor>q\<rfloor> + 1"
    by (simp add: round_half_even_def Let_def)
  ultimately show ?thesis by simp
qed

lemma round_half_even_ge:
  assumes "of_int j \<le> q"
  shows "j \<le> round_half_even q"
proof -
  from assms have "j \<le> \<lfloor>q\<rfloor>" by (simp only: le_floor_iff)
  with round_half_even_floor [of q] show ?thesis by (rule order_trans [rotated])
qed

lemma round_half_even_le:
  assumes "q \<le> of_int j"
  shows "round_half_even q \<le> j"
proof -
  from assms have "\<lceil>q\<rceil> \<le> j" by (simp only: ceiling_le_iff)
  with round_half_even_ceiling [of q] show ?thesis by (rule order_trans)
qed

lemma two_powr_int: "(2::real) powr real_of_int n = 2 powi n"
  by (simp add: powr_real_of_int')

lemma floor_log2_bounds:
  assumes "0 < x"
  shows "2 powi \<lfloor>log 2 x\<rfloor> \<le> x" and "x < 2 powi (\<lfloor>log 2 x\<rfloor> + 1)"
proof -
  have x: "2 powr log 2 x = x" using assms by simp
  have "real_of_int \<lfloor>log 2 x\<rfloor> \<le> log 2 x" by simp
  then have "2 powr real_of_int \<lfloor>log 2 x\<rfloor> \<le> 2 powr log 2 x"
    by (simp only: powr_le_cancel_iff [of 2])
  then show "2 powi \<lfloor>log 2 x\<rfloor> \<le> x"
    unfolding two_powr_int x .
  have "log 2 x < real_of_int (\<lfloor>log 2 x\<rfloor> + 1)" by linarith
  then have "2 powr log 2 x < 2 powr real_of_int (\<lfloor>log 2 x\<rfloor> + 1)"
    by (simp only: powr_less_cancel_iff [of 2])
  then show "x < 2 powi (\<lfloor>log 2 x\<rfloor> + 1)"
    unfolding two_powr_int x .
qed

lemma floor_log2_unique:
  assumes "2 powi e \<le> x" and "x < 2 powi (e + 1)"
  shows "\<lfloor>log 2 x\<rfloor> = e"
proof -
  have p: "0 < (2::real) powi e" by (rule zero_less_power_int) simp
  from less_le_trans [OF p assms(1)] have pos: "0 < x" .
  have x: "2 powr log 2 x = x" using pos by simp
  from assms(1) have "2 powr real_of_int e \<le> 2 powr log 2 x"
    unfolding two_powr_int x .
  then have a: "real_of_int e \<le> log 2 x"
    by (simp only: powr_le_cancel_iff [of 2])
  from assms(2) have "2 powr log 2 x < 2 powr real_of_int (e + 1)"
    unfolding two_powr_int x .
  then have b: "log 2 x < real_of_int (e + 1)"
    by (simp only: powr_less_cancel_iff [of 2])
  from a b show ?thesis by (simp add: floor_eq_iff)
qed

text \<open>The last place of a positive number.\<close>

lemma ulp_exp_pos_cases:
  assumes "0 < x"
  shows "ulp_exp x = \<lfloor>log 2 x\<rfloor> - 52 \<or> (ulp_exp x = - 1074 \<and> \<lfloor>log 2 x\<rfloor> - 52 \<le> - 1074)"
  using assms by (auto simp: ulp_exp_def max_def)

lemma ulp_exp_ge: "- 1074 \<le> ulp_exp x" and ulp_exp_ge2: "\<lfloor>log 2 \<bar>x\<bar>\<rfloor> - 52 \<le> ulp_exp x"
  by (simp_all add: ulp_exp_def)

lemma powi_2_pos: "0 < (2::real) powi e"
  by (rule zero_less_power_int) simp

lemma powi_2_mono: "a \<le> b \<Longrightarrow> (2::real) powi a \<le> 2 powi b"
  by (rule power_int_increasing) simp_all

lemma powi_2_split: "(2::real) powi (a + b) = 2 powi a * 2 powi b"
  by (simp add: power_int_add)

lemma powi_2_quot: "u \<le> e \<Longrightarrow> (2::real) powi e / 2 powi u = of_int (2 ^ nat (e - u))"
proof -
  assume "u \<le> e"
  then have "(2::real) powi e = 2 powi (e - u) * 2 powi u"
    by (simp add: power_int_add [symmetric])
  moreover have "(2::real) powi (e - u) = 2 ^ nat (e - u)"
    using \<open>u \<le> e\<close> by (simp add: power_int_def)
  ultimately show ?thesis using powi_2_pos [of u] by simp
qed

lemma scale_mono:
  assumes "(j::int) \<le> n"
  shows "real_of_int j * 2 powi u \<le> real_of_int n * 2 powi u"
proof (rule mult_right_mono)
  show "real_of_int j \<le> real_of_int n" using assms by (simp only: of_int_le_iff)
  show "0 \<le> (2::real) powi u" using powi_2_pos [of u] by simp
qed

lemma dyadic_quot:
  assumes "u \<le> e"
  shows "real_of_int k * 2 powi e / 2 powi u = of_int (k * 2 ^ nat (e - u))"
proof -
  have "real_of_int k * 2 powi e / 2 powi u = real_of_int k * (2 powi e / 2 powi u)"
    by simp
  also have "\<dots> = real_of_int k * of_int (2 ^ nat (e - u))"
    by (simp only: powi_2_quot [OF assms])
  also have "\<dots> = of_int (k * 2 ^ nat (e - u))" by simp
  finally show ?thesis .
qed

lemma dyadic_back:
  assumes "u \<le> e"
  shows "of_int (k * 2 ^ nat (e - u)) * 2 powi u = real_of_int k * 2 powi e"
proof -
  have "(2::real) powi u \<noteq> 0" using powi_2_pos [of u] by simp
  then show ?thesis
    unfolding dyadic_quot [OF assms, symmetric] by simp
qed

text \<open>A double at or below \<open>x\<close> is at or below the rounded \<open>x\<close>.\<close>

lemma fl_unfold_pos:
  assumes "0 < x"
  shows "fl x = of_int (round_half_even (x / 2 powi ulp_exp x)) * 2 powi ulp_exp x"
  using assms by (simp add: fl_def)

lemma fl_ge_binade:
  assumes "0 < x" and "ulp_exp x = \<lfloor>log 2 x\<rfloor> - 52"
  shows "2 powi \<lfloor>log 2 x\<rfloor> \<le> fl x"
proof -
  let ?E = "\<lfloor>log 2 x\<rfloor>" and ?u = "ulp_exp x"
  have u: "?u \<le> ?E" using assms(2) by simp
  have "2 powi ?E / 2 powi ?u \<le> x / 2 powi ?u"
    using floor_log2_bounds(1) [OF assms(1)] powi_2_pos [of ?u]
    by (simp add: divide_right_mono)
  then have "of_int (2 ^ nat (?E - ?u)) \<le> x / 2 powi ?u"
    unfolding powi_2_quot [OF u] .
  from round_half_even_ge [OF this]
  have "of_int (2 ^ nat (?E - ?u)) * 2 powi ?u \<le> fl x"
    unfolding fl_unfold_pos [OF assms(1)]
    using powi_2_pos [of ?u] by (simp add: mult_right_mono)
  then show ?thesis
    using powi_2_quot [OF u] powi_2_pos [of ?u] by (simp add: field_simps)
qed

lemma fl_lower:
  assumes "0 < k" and "k < 2 ^ 53" and "- 1074 \<le> e" and "of_int k * 2 powi e \<le> x"
  shows "of_int k * 2 powi e \<le> fl x"
proof -
  let ?E = "\<lfloor>log 2 x\<rfloor>" and ?u = "ulp_exp x"
  have d: "0 < real_of_int k * 2 powi e" using assms(1) powi_2_pos [of e] by simp
  with assms(4) have pos: "0 < x" by simp
  show ?thesis
  proof (cases "?u \<le> e")
    case True
    have "real_of_int k * 2 powi e / 2 powi ?u = of_int (k * 2 ^ nat (e - ?u))"
      by (rule dyadic_quot [OF True])
    moreover have "real_of_int k * 2 powi e / 2 powi ?u \<le> x / 2 powi ?u"
      using assms(4) powi_2_pos [of ?u] by (simp add: divide_right_mono)
    ultimately have "of_int (k * 2 ^ nat (e - ?u)) \<le> x / 2 powi ?u" by simp
    from scale_mono [OF round_half_even_ge [OF this]]
    have "of_int (k * 2 ^ nat (e - ?u)) * 2 powi ?u \<le> fl x"
      unfolding fl_unfold_pos [OF pos] .
    then show ?thesis unfolding dyadic_back [OF True] .
  next
    case False
    with assms(3) ulp_exp_pos_cases [OF pos] have u: "?u = ?E - 52" by auto
    with False have e: "e + 53 \<le> ?E" by simp
    have "real_of_int k \<le> 2 ^ 53" using assms(2) by simp
    then have "real_of_int k * 2 powi e \<le> 2 ^ 53 * 2 powi e"
      using powi_2_pos [of e] by (simp add: mult_right_mono)
    also have "\<dots> = 2 powi (e + 53)"
      by (simp add: power_int_add)
    also have "\<dots> \<le> 2 powi ?E" using e by (rule powi_2_mono)
    also have "\<dots> \<le> fl x" using pos u by (rule fl_ge_binade)
    finally show ?thesis .
  qed
qed

lemma fl_upper:
  assumes "0 < k" and "k < 2 ^ 53" and "- 1074 \<le> e" and "0 < x" and "x \<le> of_int k * 2 powi e"
  shows "fl x \<le> of_int k * 2 powi e"
proof -
  let ?E = "\<lfloor>log 2 x\<rfloor>" and ?u = "ulp_exp x"
  note pos = assms(4)
  show ?thesis
  proof (cases "?u \<le> e")
    case True
    have "real_of_int k * 2 powi e / 2 powi ?u = of_int (k * 2 ^ nat (e - ?u))"
      by (rule dyadic_quot [OF True])
    moreover have "x / 2 powi ?u \<le> real_of_int k * 2 powi e / 2 powi ?u"
      using assms(5) powi_2_pos [of ?u] by (simp add: divide_right_mono)
    ultimately have "x / 2 powi ?u \<le> of_int (k * 2 ^ nat (e - ?u))" by simp
    from scale_mono [OF round_half_even_le [OF this]]
    have "fl x \<le> of_int (k * 2 ^ nat (e - ?u)) * 2 powi ?u"
      unfolding fl_unfold_pos [OF pos] .
    then show ?thesis unfolding dyadic_back [OF True] .
  next
    case False
    with assms(3) ulp_exp_pos_cases [OF pos] have u: "?u = ?E - 52" by auto
    with False have e: "e + 53 \<le> ?E" by simp
    have "real_of_int k < 2 ^ 53" using assms(2) by simp
    then have "real_of_int k * 2 powi e < 2 ^ 53 * 2 powi e"
      using powi_2_pos [of e] by (simp add: mult_strict_right_mono)
    also have "\<dots> = 2 powi (e + 53)"
      by (simp add: power_int_add)
    also have "\<dots> \<le> 2 powi ?E" using e by (rule powi_2_mono)
    also have "\<dots> \<le> x" using pos by (rule floor_log2_bounds(1))
    finally show ?thesis using assms(5) by simp
  qed
qed

lemma fl_exact:
  assumes "0 < k" and "k < 2 ^ 53" and "- 1074 \<le> e"
  shows "fl (of_int k * 2 powi e) = of_int k * 2 powi e"
proof (rule antisym)
  have d: "0 < real_of_int k * 2 powi e" using assms(1) powi_2_pos [of e] by simp
  show "fl (of_int k * 2 powi e) \<le> of_int k * 2 powi e"
    by (rule fl_upper [OF assms d]) simp
  show "of_int k * 2 powi e \<le> fl (of_int k * 2 powi e)"
    by (rule fl_lower [OF assms]) simp
qed

lemma fl_nonneg: "0 \<le> x \<Longrightarrow> 0 \<le> fl x"
proof (cases "x = 0")
  case True
  then show ?thesis by (simp add: fl_def)
next
  case False
  assume "0 \<le> x"
  with False have pos: "0 < x" by simp
  have "(0::real) \<le> x / 2 powi ulp_exp x"
    using pos powi_2_pos [of "ulp_exp x"] by simp
  then have "of_int 0 \<le> x / 2 powi ulp_exp x" by simp
  from round_half_even_ge [OF this] show ?thesis
    unfolding fl_unfold_pos [OF pos] using powi_2_pos [of "ulp_exp x"] by simp
qed

lemma fl_nonpos: "x \<le> 0 \<Longrightarrow> fl x \<le> 0"
proof (cases "x = 0")
  case True
  then show ?thesis by (simp add: fl_def)
next
  case False
  assume "x \<le> 0"
  with False have neg: "x < 0" by simp
  have "x / 2 powi ulp_exp x \<le> 0"
    using neg powi_2_pos [of "ulp_exp x"] by (simp add: divide_nonpos_pos)
  then have "x / 2 powi ulp_exp x \<le> of_int 0" by simp
  from round_half_even_le [OF this] have "round_half_even (x / 2 powi ulp_exp x) \<le> 0" .
  then have "real_of_int (round_half_even (x / 2 powi ulp_exp x)) * 2 powi ulp_exp x \<le> 0"
    using powi_2_pos [of "ulp_exp x"] by (simp add: mult_le_0_iff)
  then show ?thesis using False by (simp add: fl_def)
qed


lemma fl_0: "fl 0 = 0"
  by (simp add: fl_def)

lemma round_half_even_int: "round_half_even (of_int j) = j"
  by (simp add: round_half_even_def)

lemma round_half_even_minus: "round_half_even (- q) = - round_half_even q"
proof (cases "q = of_int \<lfloor>q\<rfloor>")
  case True
  then obtain j where q: "q = of_int j" ..
  have "round_half_even (- real_of_int j) = - j"
    using round_half_even_int [of "- j"] by simp
  then show ?thesis unfolding q round_half_even_int .
next
  case False
  define f where "f = \<lfloor>q\<rfloor>"
  define r where "r = q - of_int f"
  from False have lt: "of_int f < q" using of_int_floor_le [of q] unfolding f_def by linarith
  have "q < of_int f + 1" unfolding f_def by linarith
  with lt have nf: "\<lfloor>- q\<rfloor> = - f - 1"
    by (intro floor_unique) simp_all
  have r: "0 < r" "r < 1" using lt \<open>q < of_int f + 1\<close> by (simp_all add: r_def)
  have nr: "- q - of_int (- f - 1) = 1 - r" by (simp add: r_def)
  have a: "round_half_even q =
             (if r < 1 / 2 then f else if 1 / 2 < r then f + 1 else if even f then f else f + 1)"
    by (simp only: round_half_even_def Let_def f_def [symmetric] r_def [symmetric])
  have b: "round_half_even (- q) =
             (if 1 - r < 1 / 2 then - f - 1 else if 1 / 2 < 1 - r then - f - 1 + 1
              else if even (- f - 1) then - f - 1 else - f - 1 + 1)"
    by (simp only: round_half_even_def Let_def nf nr)
  consider "r < 1 / 2" | "1 / 2 < r" | "r = 1 / 2" by linarith
  then show ?thesis
  proof cases
    case 1
    then show ?thesis unfolding a b by simp
  next
    case 2
    then show ?thesis unfolding a b by simp
  next
    case 3
    then show ?thesis unfolding a b by simp
  qed
qed

lemma ulp_exp_minus: "ulp_exp (- x) = ulp_exp x"
  by (simp add: ulp_exp_def)

lemma fl_minus: "fl (- x) = - fl x"
proof (cases "x = 0")
  case True
  then show ?thesis by (simp add: fl_def)
next
  case False
  have "- x / 2 powi ulp_exp x = - (x / 2 powi ulp_exp x)" by simp
  then show ?thesis
    using False by (simp add: fl_def ulp_exp_minus round_half_even_minus)
qed

lemma fl_pow2: "- 1074 \<le> e \<Longrightarrow> fl (2 powi e) = 2 powi e"
  using fl_exact [of 1 e] by simp

lemma fl_int: "0 < k \<Longrightarrow> k < 2 ^ 53 \<Longrightarrow> fl (of_int k) = of_int k"
  using fl_exact [of k 0] by simp

lemma fl_int_abs:
  assumes "\<bar>k\<bar> < 2 ^ 53"
  shows "fl (of_int k) = of_int k"
proof -
  consider "k = 0" | "0 < k" | "k < 0" by linarith
  then show ?thesis
  proof cases
    case 1
    then show ?thesis by (simp add: fl_0)
  next
    case 2
    with assms show ?thesis by (simp add: fl_int)
  next
    case 3
    with assms have "fl (of_int (- k)) = of_int (- k)" by (intro fl_int) simp_all
    then have "fl (- of_int k) = - of_int k" by simp
    then show ?thesis unfolding fl_minus by simp
  qed
qed

text \<open>No double lies strictly between \<open>2 ^ 64 - 2 ^ 11\<close> and \<open>2 ^ 64\<close>.\<close>

lemma fl_below_two64:
  assumes "fl x < 2 ^ 64"
  shows "fl x \<le> 2 ^ 64 - 2 ^ 11"
proof -
  consider "x \<le> 0" | "0 < x" "x < 2 ^ 63" | "2 ^ 63 \<le> x" by linarith
  then show ?thesis
  proof cases
    case 1
    from fl_nonpos [OF this] show ?thesis by simp
  next
    case 2
    from fl_upper [of 1 63 x] 2 have "fl x \<le> 2 ^ 63" by simp
    then show ?thesis by simp
  next
    case 3
    then have pos: "0 < x" by simp
    have lt: "x < 2 ^ 64"
    proof (rule ccontr)
      assume "\<not> x < 2 ^ 64"
      with fl_lower [of 1 64 x] have "2 ^ 64 \<le> fl x" by simp
      with assms show False by simp
    qed
    have E: "\<lfloor>log 2 x\<rfloor> = 63"
      by (rule floor_log2_unique) (use 3 lt in simp_all)
    have u: "ulp_exp x = 11" using pos by (simp add: ulp_exp_def E)
    let ?n = "round_half_even (x / 2 powi 11)"
    have f: "fl x = of_int ?n * 2 ^ 11"
      unfolding fl_unfold_pos [OF pos] u by simp
    with assms have "real_of_int ?n * 2 ^ 11 < 2 ^ 64" by simp
    then have "real_of_int ?n < 2 ^ 53" by simp
    then have "?n < 2 ^ 53" by (simp only: of_int_less_numeral_power_cancel_iff)
    then have "?n \<le> 2 ^ 53 - 1" by simp
    then have "real_of_int ?n \<le> real_of_int (2 ^ 53 - 1)"
      by (simp only: of_int_le_iff)
    then have "real_of_int ?n \<le> 2 ^ 53 - 1" by simp
    then show ?thesis unfolding f by simp
  qed
qed

lemma round_half_even_unique:
  assumes "\<bar>q - of_int n\<bar> < 1 / 2"
  shows "round_half_even q = n"
proof (cases "of_int n \<le> q")
  case True
  with assms have f: "\<lfloor>q\<rfloor> = n" by (intro floor_unique) (simp_all add: abs_less_iff)
  from True assms have "q - of_int n < 1 / 2" by (simp add: abs_less_iff)
  then show ?thesis by (simp add: round_half_even_def f)
next
  case False
  with assms have f: "\<lfloor>q\<rfloor> = n - 1" by (intro floor_unique) (simp_all add: abs_less_iff)
  from False assms have "1 / 2 < q - of_int (n - 1)" by (simp add: abs_less_iff)
  then show ?thesis by (simp add: round_half_even_def f)
qed

lemma fl_eval:
  assumes "2 powi E \<le> x" and "x < 2 powi (E + 1)" and "- 1022 \<le> E"
    and "\<bar>x / 2 powi (E - 52) - of_int n\<bar> < 1 / 2"
  shows "fl x = of_int n * 2 powi (E - 52)"
proof -
  from less_le_trans [OF powi_2_pos assms(1)] have pos: "0 < x" .
  have u: "ulp_exp x = E - 52"
    using pos assms(3) by (simp add: ulp_exp_def floor_log2_unique [OF assms(1,2)])
  show ?thesis
    unfolding fl_unfold_pos [OF pos] u round_half_even_unique [OF assms(4)] ..
qed


section \<open>The estimate\<close>

lemma alpha_of_range:
  assumes "0 < m"
  shows "0 < alpha_of m" and "alpha_of m < 1"
proof -
  from assms have q: "0 < 1.079 / real_of_int m" by simp
  define d where "d = 1 + 1.079 / real_of_int m"
  from q have d: "1 < d" by (simp add: d_def)
  then have "0.7213 / d < 0.7213 / 1"
    by (intro divide_strict_left_mono) simp_all
  then have u: "0.7213 / (1 + 1.079 / real_of_int m) < 1" by (simp add: d_def)
  from d have "0 < 0.7213 / d" by simp
  then have l: "0 < 0.7213 / (1 + 1.079 / real_of_int m)" by (simp add: d_def)
  from l show "0 < alpha_of m" by (simp add: alpha_of_def)
  from u show "alpha_of m < 1" by (simp add: alpha_of_def)
qed

lemma hll_inv_double:
  assumes "hll_inv h"
  shows "hll_double_inv h"
proof -
  from assms have "0 < m_hll h" by (simp add: hll_inv_def)
  from alpha_of_range [OF this] assms show ?thesis
    by (simp add: hll_inv_def hll_double_inv_def)
qed

lemma hll_reachable_double:
  "digest_sizes H \<Longrightarrow> hll_reachable H h \<Longrightarrow> hll_double_inv h"
  by (rule hll_inv_double) (rule hll_reachable_inv)

lemma py_float_small:
  assumes "\<bar>k\<bar> < 2 ^ 53"
  shows "py_float k = Inr (of_int k)"
proof -
  have "\<bar>real_of_int k\<bar> < 2 ^ 53"
    using assms by (simp only: of_int_abs [symmetric] of_int_less_numeral_power_cancel_iff)
  also have "(2::real) ^ 53 \<le> 2 ^ 1024" by (rule power_increasing) simp_all
  finally have "\<not> 2 ^ 1024 \<le> \<bar>real_of_int k\<bar>" by simp
  then show ?thesis
    unfolding py_float_def fl_int_abs [OF assms] by (simp only: if_False)
qed

lemma py_pow2_exact:
  assumes "- 1074 \<le> k" and "k \<le> 1023"
  shows "py_pow2 k = Inr (2 powi k)"
proof -
  have "\<bar>k\<bar> < 2 ^ 53" using assms by simp
  from py_float_small [OF this] assms show ?thesis
    by (simp add: py_pow2_def fl_pow2)
qed

lemma estimate_loop_eq:
  "\<forall>r \<in> set rs. 0 \<le> r \<and> r \<le> 1074 \<Longrightarrow>
   estimate_loop rs (a, z) =
     Inr (foldl (\<lambda>acc r. fl (acc + 2 powi (- r))) a rs,
          z + int (length (filter (\<lambda>r. r = 0) rs)))"
proof (induction rs arbitrary: a z)
  case Nil
  then show ?case by simp
next
  case (Cons r rs)
  from Cons.prems have r: "- 1074 \<le> - r" "- r \<le> 1023" by simp_all
  from Cons.prems have rest: "\<forall>r \<in> set rs. 0 \<le> r \<and> r \<le> 1074" by simp
  show ?case
    by (simp add: py_pow2_exact [OF r] Cons.IH [OF rest])
qed

lemma step_pos:
  assumes "0 \<le> a" and "0 \<le> r" and "r \<le> 1074"
  shows "0 < fl (a + 2 powi (- r))"
proof -
  have "real_of_int 1 * 2 powi (- r) \<le> a + 2 powi (- r)" using assms(1) by simp
  from fl_lower [OF _ _ _ this] assms(2,3)
  have "2 powi (- r) \<le> fl (a + 2 powi (- r))" by simp
  with powi_2_pos [of "- r"] show ?thesis by (rule less_le_trans)
qed

lemma foldl_pos:
  "0 < a \<Longrightarrow> \<forall>r \<in> set rs. 0 \<le> r \<and> r \<le> 1074 \<Longrightarrow>
     0 < foldl (\<lambda>acc r. fl (acc + 2 powi (- r))) a rs"
proof (induction rs arbitrary: a)
  case Nil
  then show ?case by simp
next
  case (Cons r rs)
  from Cons.prems have "0 < fl (a + 2 powi (- r))"
    by (intro step_pos) simp_all
  from Cons.IH [OF this] Cons.prems(2) show ?case by simp
qed

lemma inv_sum_pos:
  assumes "rs \<noteq> []" and "\<forall>r \<in> set rs. 0 \<le> r \<and> r \<le> 1074"
  shows "0 < foldl (\<lambda>acc r. fl (acc + 2 powi (- r))) 0 rs"
proof -
  from assms(1) obtain r rs' where rs: "rs = r # rs'" by (cases rs) auto
  from assms(2) have "0 < fl (0 + 2 powi (- r))"
    unfolding rs by (intro step_pos) simp_all
  from foldl_pos [OF this, of rs'] assms(2) show ?thesis
    unfolding rs by simp
qed

lemma inv_regs:
  assumes "hll_double_inv h"
  shows "\<forall>r \<in> set (registers h). 0 \<le> r \<and> r \<le> 1074" and "registers h \<noteq> []"
proof -
  from assms show "\<forall>r \<in> set (registers h). 0 \<le> r \<and> r \<le> 1074"
    by (auto simp: hll_double_inv_def)
  from assms have "0 < nat (m_hll h)" by (simp add: hll_double_inv_def)
  with assms show "registers h \<noteq> []" by (auto simp: hll_double_inv_def)
qed

lemma inv_m:
  assumes "hll_double_inv h"
  shows "16 \<le> m_hll h" and "m_hll h \<le> 2 ^ 20" and "m_hll h = 2 ^ nat (p_hll h)"
proof -
  from assms have m: "m_hll h = 2 ^ nat (p_hll h)" and p: "4 \<le> nat (p_hll h)" "nat (p_hll h) \<le> 20"
    by (auto simp: hll_double_inv_def)
  show "m_hll h = 2 ^ nat (p_hll h)" by (rule m)
  have "(2::int) ^ 4 \<le> 2 ^ nat (p_hll h)" using p(1) by (intro power_increasing) simp_all
  then show "16 \<le> m_hll h" unfolding m by simp
  have "(2::int) ^ nat (p_hll h) \<le> 2 ^ 20" using p(2) by (intro power_increasing) simp_all
  then show "m_hll h \<le> 2 ^ 20" unfolding m .
qed

lemma estimate_loop_spec:
  assumes "hll_double_inv h"
  shows "estimate_loop (registers h) (0, 0) = Inr (dbl_inv_sum h, spec_zero_count h)"
  using estimate_loop_eq [OF inv_regs(1) [OF assms], of 0 0]
  by (simp add: dbl_inv_sum_def spec_zero_count_def)

lemma dbl_inv_sum_pos: "hll_double_inv h \<Longrightarrow> 0 < dbl_inv_sum h"
  unfolding dbl_inv_sum_def using inv_regs [of h] inv_sum_pos by blast

lemma py_float_m:
  assumes "hll_double_inv h"
  shows "py_float (m_hll h) = Inr (real_of_int (m_hll h))"
proof -
  from inv_m(1,2) [OF assms] have "\<bar>m_hll h\<bar> < 2 ^ 53" by simp
  then show ?thesis by (rule py_float_small)
qed

lemma py_float_mm:
  assumes "hll_double_inv h"
  shows "py_float (m_hll h * m_hll h) = Inr (real_of_int (m_hll h * m_hll h))"
proof -
  from inv_m(1,2) [OF assms] have "0 \<le> m_hll h" "m_hll h \<le> 2 ^ 20" by simp_all
  then have "m_hll h * m_hll h \<le> 2 ^ 20 * 2 ^ 20" by (intro mult_mono) simp_all
  moreover have "0 \<le> m_hll h * m_hll h" by simp
  ultimately have "\<bar>m_hll h * m_hll h\<bar> < 2 ^ 53" by simp
  then show ?thesis by (rule py_float_small)
qed

lemma raw_estimate_spec:
  assumes "hll_double_inv h"
  shows "raw_estimate h (dbl_inv_sum h) = Inr (dbl_raw h)"
  using dbl_inv_sum_pos [OF assms]
  by (simp add: raw_estimate_def py_float_mm [OF assms] py_fdiv_def dbl_raw_def)

lemma fl_two_half_m:
  assumes "hll_double_inv h"
  shows "fl (2.5 * real_of_int (m_hll h)) = 2.5 * real_of_int (m_hll h)"
proof -
  let ?n = "nat (p_hll h)"
  from assms have n: "4 \<le> ?n" by (auto simp: hll_double_inv_def)
  from n obtain k where k: "?n = Suc k" by (cases ?n) auto
  have "(2::real) powi (int ?n - 1) = 2 ^ k"
    unfolding k by simp
  then have "2.5 * real_of_int (m_hll h) = real_of_int 5 * 2 powi (int ?n - 1)"
    unfolding inv_m(3) [OF assms] k by simp
  moreover have "fl (real_of_int 5 * 2 powi (int ?n - 1)) = real_of_int 5 * 2 powi (int ?n - 1)"
    by (rule fl_exact) simp_all
  ultimately show ?thesis by simp
qed

lemma py_truediv_m:
  assumes "hll_double_inv h" and "0 < z" and "z \<le> m_hll h"
  shows "py_truediv (m_hll h) z = Inr (fl (real_of_int (m_hll h) / real_of_int z))"
    and "1 \<le> fl (real_of_int (m_hll h) / real_of_int z)"
proof -
  let ?q = "real_of_int (m_hll h) / real_of_int z"
  from assms(2,3) have one: "1 \<le> ?q" by (simp add: le_divide_eq)
  from fl_lower [of 1 0 ?q] one show l: "1 \<le> fl ?q" by simp
  from inv_m(2) [OF assms(1)] have "real_of_int (m_hll h) \<le> 2 ^ 20"
    by (simp only: of_int_le_numeral_power_cancel_iff)
  moreover have "?q \<le> real_of_int (m_hll h)"
    using assms(2) inv_m(1) [OF assms(1)] by (simp add: divide_le_eq mult_le_cancel_left1)
  ultimately have "?q \<le> real_of_int 1 * 2 powi 20" by simp
  from fl_upper [OF _ _ _ _ this] one have "fl ?q \<le> 2 ^ 20" by simp
  also have "(2::real) ^ 20 < 2 ^ 1024" by (rule power_strict_increasing) simp_all
  finally have "\<not> 2 ^ 1024 \<le> \<bar>fl ?q\<bar>" using l by simp
  with assms(2) show "py_truediv (m_hll h) z = Inr (fl ?q)"
    by (simp add: py_truediv_def)
qed

lemma zero_count_le:
  "hll_double_inv h \<Longrightarrow> spec_zero_count h \<le> m_hll h"
proof -
  assume a: "hll_double_inv h"
  have "length (filter (\<lambda>r. r = 0) (registers h)) \<le> length (registers h)"
    by (rule length_filter_le)
  also have "\<dots> = nat (m_hll h)" using a by (simp add: hll_double_inv_def)
  finally show ?thesis using inv_m(1) [OF a] by (simp add: spec_zero_count_def)
qed

lemma py_pow2_64: "py_pow2 64 = Inr (2 ^ 64)"
  using py_pow2_exact [of 64] by simp

text \<open>The argument of the logarithm of the large-range correction.\<close>

lemma log_arg_pos:
  assumes "fl x < 2 ^ 64"
  shows "0 < fl (1 - fl (fl x / 2 ^ 64))"
proof -
  let ?t = "fl (fl x / 2 ^ 64)"
  have t: "?t \<le> 1 - 2 powi (- 53)"
  proof (cases "fl x \<le> 0")
    case True
    then have "fl x / 2 ^ 64 \<le> 0" by (simp add: divide_nonpos_pos)
    from fl_nonpos [OF this] have "?t \<le> 0" .
    moreover have "(0::real) \<le> 1 - 2 powi (- 53)" by (simp add: power_int_minus)
    ultimately show ?thesis by simp
  next
    case False
    then have pos: "0 < fl x / 2 ^ 64" by simp
    from fl_below_two64 [OF assms] have "fl x / 2 ^ 64 \<le> (2 ^ 64 - 2 ^ 11) / 2 ^ 64"
      by (simp add: divide_right_mono)
    also have "(2 ^ 64 - 2 ^ 11) / 2 ^ 64 = real_of_int (2 ^ 53 - 1) * 2 powi (- 53)"
      by (simp add: power_int_minus)
    finally have "fl x / 2 ^ 64 \<le> real_of_int (2 ^ 53 - 1) * 2 powi (- 53)" .
    from fl_upper [OF _ _ _ pos this]
    have "?t \<le> real_of_int (2 ^ 53 - 1) * 2 powi (- 53)" by simp
    also have "\<dots> = 1 - 2 powi (- 53)" by (simp add: power_int_minus)
    finally show ?thesis .
  qed
  then have "real_of_int 1 * 2 powi (- 53) \<le> 1 - ?t" by simp
  from fl_lower [OF _ _ _ this] have "2 powi (- 53) \<le> fl (1 - ?t)" by simp
  with powi_2_pos [of "- 53"] show ?thesis by (rule less_le_trans)
qed

lemma log_arg_nonpos:
  assumes "2 ^ 64 \<le> y"
  shows "fl (1 - fl (y / 2 ^ 64)) \<le> 0"
proof -
  from assms have "real_of_int 1 * 2 powi 0 \<le> y / 2 ^ 64" by (simp add: le_divide_eq)
  from fl_lower [OF _ _ _ this] have "1 \<le> fl (y / 2 ^ 64)" by simp
  then have "1 - fl (y / 2 ^ 64) \<le> 0" by simp
  then show ?thesis by (rule fl_nonpos)
qed

lemma dbl_raw_below:
  assumes "dbl_raw h < 2 ^ 64"
  shows "0 < fl (1 - fl (dbl_raw h / 2 ^ 64))"
  using assms log_arg_pos [of "fl (alpha h * real_of_int (m_hll h * m_hll h)) / dbl_inv_sum h"]
  unfolding dbl_raw_def by simp

lemma HyperLogLog_estimate_eq:
  assumes "hll_double_inv h"
  shows "HyperLogLog_estimate L h =
     (if dbl_raw h \<le> 2.5 * real_of_int (m_hll h) \<and> 0 < spec_zero_count h
      then Inr (fl (real_of_int (m_hll h) *
                    L (fl (real_of_int (m_hll h) / real_of_int (spec_zero_count h)))))
      else if dbl_raw h > fl (2 ^ 64 / 30)
           then (if dbl_raw h < 2 ^ 64
                 then Inr (fl (- (2 ^ 64) * L (fl (1 - fl (dbl_raw h / 2 ^ 64)))))
                 else Inl ValueError)
           else Inr (dbl_raw h))"
proof -
  note l = estimate_loop_spec [OF assms] and r = raw_estimate_spec [OF assms]
    and fm = py_float_m [OF assms] and tm = fl_two_half_m [OF assms]
  show ?thesis
  proof (cases "dbl_raw h \<le> 2.5 * real_of_int (m_hll h) \<and> 0 < spec_zero_count h")
    case True
    then have z: "0 < spec_zero_count h" by simp
    note d = py_truediv_m [OF assms z zero_count_le [OF assms]]
    have lg: "py_log L (fl (real_of_int (m_hll h) / real_of_int (spec_zero_count h))) =
                Inr (L (fl (real_of_int (m_hll h) / real_of_int (spec_zero_count h))))"
      using d(2) by (simp add: py_log_def)
    show ?thesis
      unfolding HyperLogLog_estimate_def Let_def l sum.case prod.case r fm tm if_P [OF True]
        d(1) lg ..
  next
    case False
    show ?thesis
    proof (cases "dbl_raw h > fl (2 ^ 64 / 30)")
      case big: True
      show ?thesis
      proof (cases "dbl_raw h < 2 ^ 64")
        case True
        from dbl_raw_below [OF True]
        have lg: "py_log L (fl (1 - fl (dbl_raw h / 2 ^ 64))) =
                    Inr (L (fl (1 - fl (dbl_raw h / 2 ^ 64))))"
          by (simp add: py_log_def)
        show ?thesis
          unfolding HyperLogLog_estimate_def Let_def l sum.case prod.case r fm tm
            if_not_P [OF False] py_pow2_64 if_P [OF big] lg if_P [OF True] ..
      next
        case nb: False
        then have "2 ^ 64 \<le> dbl_raw h" by simp
        from log_arg_nonpos [OF this]
        have lg: "py_log L (fl (1 - fl (dbl_raw h / 2 ^ 64))) = Inl ValueError"
          by (simp add: py_log_def)
        show ?thesis
          unfolding HyperLogLog_estimate_def Let_def l sum.case prod.case r fm tm
            if_not_P [OF False] py_pow2_64 if_P [OF big] lg if_not_P [OF nb] ..
      qed
    next
      case small: False
      show ?thesis
        unfolding HyperLogLog_estimate_def Let_def l sum.case prod.case r fm tm
          if_not_P [OF False] py_pow2_64 if_not_P [OF small] ..
    qed
  qed
qed

text \<open>No intermediate value leaves the range of the finite doubles.\<close>

lemma dbl_raw_finite:
  assumes "hll_double_inv h"
  shows "0 \<le> dbl_raw h" and "dbl_raw h \<le> 2 ^ 1023"
proof -
  let ?a = "fl (alpha h * real_of_int (m_hll h * m_hll h))"
  from assms have al: "0 < alpha h" "alpha h < 1" by (simp_all add: hll_double_inv_def)
  from inv_m(1,2) [OF assms] have m: "0 < m_hll h" "m_hll h \<le> 2 ^ 20" by simp_all
  then have "m_hll h * m_hll h \<le> 2 ^ 20 * 2 ^ 20" by (intro mult_mono) simp_all
  then have "real_of_int (m_hll h * m_hll h) \<le> real_of_int (2 ^ 20 * 2 ^ 20)"
    by (simp only: of_int_le_iff)
  then have mm: "real_of_int (m_hll h * m_hll h) \<le> 2 ^ 40" by simp
  have mp: "0 < real_of_int (m_hll h * m_hll h)" using m(1) by simp
  have x: "0 < alpha h * real_of_int (m_hll h * m_hll h)"
    using al(1) mp by (rule mult_pos_pos)
  have "alpha h * real_of_int (m_hll h * m_hll h) \<le> 1 * 2 ^ 40"
    using al mm mp by (intro mult_mono) simp_all
  then have "alpha h * real_of_int (m_hll h * m_hll h) \<le> real_of_int 1 * 2 powi 40" by simp
  from fl_upper [OF _ _ _ x this] have a40: "?a \<le> 2 ^ 40" by simp
  have a0: "0 \<le> ?a" using x by (intro fl_nonneg) simp
  note s = dbl_inv_sum_pos [OF assms]
  have "0 \<le> ?a / dbl_inv_sum h" using a0 s by simp
  from fl_nonneg [OF this] show "0 \<le> dbl_raw h" by (simp add: dbl_raw_def)
  from inv_regs [OF assms] obtain r rs where rs: "registers h = rs @ [r]"
    by (cases "registers h" rule: rev_cases) auto
  from assms have r: "0 \<le> r" "r \<le> 61" by (auto simp: hll_double_inv_def rs)
  have "(0::real) \<le> foldl (\<lambda>acc r. fl (acc + 2 powi (- r))) 0 rs"
  proof (cases "rs = []")
    case True
    then show ?thesis by simp
  next
    case False
    from inv_regs(1) [OF assms] have "\<forall>r \<in> set rs. 0 \<le> r \<and> r \<le> 1074" by (simp add: rs)
    from inv_sum_pos [OF False this] show ?thesis by simp
  qed
  then have "real_of_int 1 * 2 powi (- r) \<le> foldl (\<lambda>acc r. fl (acc + 2 powi (- r))) 0 rs + 2 powi (- r)"
    by simp
  from fl_lower [OF _ _ _ this] r have "2 powi (- r) \<le> dbl_inv_sum h"
    by (simp add: dbl_inv_sum_def rs)
  moreover have "(2::real) powi (- 61) \<le> 2 powi (- r)" using r by (intro powi_2_mono) simp
  ultimately have low: "2 powi (- 61) \<le> dbl_inv_sum h" by simp
  have "?a / dbl_inv_sum h \<le> 2 ^ 40 / 2 powi (- 61)"
    using a40 a0 low powi_2_pos [of "- 61"] by (intro frac_le) simp_all
  also have "\<dots> = real_of_int 1 * 2 powi 101" by (simp add: power_int_minus)
  finally have q: "?a / dbl_inv_sum h \<le> real_of_int 1 * 2 powi 101" .
  define x where "x = ?a / dbl_inv_sum h"
  have x0: "0 \<le> x" using \<open>0 \<le> ?a / dbl_inv_sum h\<close> unfolding x_def .
  have xq: "x \<le> real_of_int 1 * 2 powi 101" using q unfolding x_def .
  have dx: "dbl_raw h = fl x" unfolding dbl_raw_def x_def ..
  show "dbl_raw h \<le> 2 ^ 1023"
  proof (cases "x = 0")
    case True
    have "dbl_raw h = 0" unfolding dx True by (rule fl_0)
    then show ?thesis by simp
  next
    case False
    with x0 have "0 < x" by simp
    from fl_upper [OF _ _ _ this xq] have "dbl_raw h \<le> 2 ^ 101" by (simp add: dx)
    also have "(2::real) ^ 101 \<le> 2 ^ 1023" by (rule power_increasing) simp_all
    finally show ?thesis .
  qed
qed

section \<open>Registers all equal\<close>

lemma uniform_sum:
  assumes "0 \<le> r" and "r \<le> 1074"
  shows "n < 2 ^ 53 \<Longrightarrow>
     foldl (\<lambda>acc r. fl (acc + 2 powi (- r))) 0 (replicate n r) = real n * 2 powi (- r)"
proof (induction n)
  case 0
  then show ?case by simp
next
  case (Suc n)
  then have n: "n < 2 ^ 53" by simp
  have "replicate (Suc n) r = replicate n r @ [r]"
    by (simp add: replicate_append_same)
  then have "foldl (\<lambda>acc r. fl (acc + 2 powi (- r))) 0 (replicate (Suc n) r) =
          fl (real n * 2 powi (- r) + 2 powi (- r))"
    by (simp only: foldl_append Suc.IH [OF n] foldl.simps)
  also have "real n * 2 powi (- r) + 2 powi (- r) = real_of_int (int (Suc n)) * 2 powi (- r)"
    by (simp add: algebra_simps)
  also have "fl \<dots> = real_of_int (int (Suc n)) * 2 powi (- r)"
    using Suc.prems assms by (intro fl_exact) simp_all
  finally show ?case by simp
qed

lemma uniform_inv_sum:
  assumes "0 \<le> r" and "r \<le> 1074" and "n < 2 ^ 53"
  shows "dbl_inv_sum \<lparr>p_hll = p, m_hll = m, registers = replicate n r, alpha = a\<rparr> =
     real n * 2 powi (- r)"
  using uniform_sum [OF assms] by (simp add: dbl_inv_sum_def)

lemma uniform_zero_count:
  "spec_zero_count \<lparr>p_hll = p, m_hll = m, registers = replicate n r, alpha = a\<rparr> =
     (if r = 0 then int n else 0)"
  by (simp add: spec_zero_count_def)

lemma estimate_raises:
  assumes "hll_double_inv h" and "spec_zero_count h = 0" and "2 ^ 64 \<le> dbl_raw h"
  shows "HyperLogLog_estimate L h = Inl ValueError"
proof -
  have "(0::real) < 2 ^ 64 / 30" by simp
  moreover have "(2::real) ^ 64 / 30 \<le> real_of_int 1 * 2 powi 60" by simp
  ultimately have "fl (2 ^ 64 / 30) \<le> 2 ^ 60" using fl_upper [of 1 60 "2 ^ 64 / 30"] by simp
  also have "(2::real) ^ 60 < 2 ^ 64" by simp
  also note assms(3)
  finally have big: "dbl_raw h > fl (2 ^ 64 / 30)" .
  have n: "\<not> (dbl_raw h \<le> 2.5 * real_of_int (m_hll h) \<and> 0 < spec_zero_count h)"
    using assms(2) by simp
  have nb: "\<not> dbl_raw h < 2 ^ 64" using assms(3) by simp
  show ?thesis
    unfolding HyperLogLog_estimate_eq [OF assms(1)] if_not_P [OF n] if_P [OF big] if_not_P [OF nb] ..
qed

lemma alpha16: "fl (0.673 * 256) = 6061845098440688 / 2 ^ 45"
  using fl_eval [of 7 "0.673 * 256" 6061845098440688]
  by (simp add: power_int_minus)

lemma threshold: "fl (2 ^ 64 / 30) = 614891469123651712"
  using fl_eval [of 59 "2 ^ 64 / 30" 4803839602528529]
  by (simp add: power_int_minus)

lemma uniform_inv:
  "0 \<le> r \<Longrightarrow> r \<le> 61 \<Longrightarrow>
     hll_double_inv \<lparr>p_hll = 4, m_hll = 16, registers = replicate 16 r, alpha = 0.673\<rparr>"
  by (simp add: hll_double_inv_def)

lemma uniform_raw:
  assumes "0 \<le> r" and "r \<le> 61"
  shows "dbl_raw \<lparr>p_hll = 4, m_hll = 16, registers = replicate 16 r, alpha = 0.673\<rparr> =
     fl (6061845098440688 / 2 ^ 49 * 2 powi r)"
proof -
  have s: "dbl_inv_sum \<lparr>p_hll = 4, m_hll = 16, registers = replicate 16 r, alpha = 0.673\<rparr> =
             real 16 * 2 powi (- r)"
    using assms by (intro uniform_inv_sum) simp_all
  have a: "fl (0.673 * real_of_int (16 * 16)) = 6061845098440688 / 2 ^ 45"
    using alpha16 by simp
  have q: "6061845098440688 / 2 ^ 45 / (real 16 * 2 powi (- r)) =
        6061845098440688 / 2 ^ 49 * 2 powi r"
    by (simp add: power_int_minus field_simps)
  show ?thesis
    unfolding dbl_raw_def s HyperLogLog.select_convs a q ..
qed

lemma uniform_raw_exact:
  assumes "0 \<le> r" and "r \<le> 61"
  shows "dbl_raw \<lparr>p_hll = 4, m_hll = 16, registers = replicate 16 r, alpha = 0.673\<rparr> =
     378865318652543 * 2 powi (r - 45)"
proof -
  have "(6061845098440688::real) / 2 ^ 49 * 2 powi r = real_of_int 378865318652543 * 2 powi (r - 45)"
    by (simp add: power_int_diff)
  moreover have "fl (real_of_int 378865318652543 * 2 powi (r - 45)) =
      real_of_int 378865318652543 * 2 powi (r - 45)"
    using assms by (intro fl_exact) simp_all
  ultimately show ?thesis unfolding uniform_raw [OF assms] by simp
qed


lemma full5_inv:
  "hll_double_inv \<lparr>p_hll = 5, m_hll = 32, registers = replicate 32 60, alpha = 0.697\<rparr>"
  by (simp add: hll_double_inv_def)

lemma full5_raw:
  "2 ^ 64 \<le> dbl_raw \<lparr>p_hll = 5, m_hll = 32, registers = replicate 32 60, alpha = 0.697\<rparr>"
proof -
  have s: "dbl_inv_sum \<lparr>p_hll = 5, m_hll = 32, registers = replicate 32 60, alpha = 0.697\<rparr> =
             real 32 * 2 powi (- 60)"
    by (intro uniform_inv_sum) simp_all
  have "real_of_int 713 * 2 powi 0 \<le> 0.697 * real_of_int (32 * 32)" by simp
  from fl_lower [OF _ _ _ this] have a: "713 \<le> fl (0.697 * real_of_int (32 * 32))" by simp
  have "real_of_int 713 * 2 powi 55 \<le> fl (0.697 * real_of_int (32 * 32)) / (real 32 * 2 powi (- 60))"
    using a by (simp add: power_int_minus field_simps)
  from fl_lower [OF _ _ _ this]
  have "real_of_int 713 * 2 powi 55 \<le>
          dbl_raw \<lparr>p_hll = 5, m_hll = 32, registers = replicate 32 60, alpha = 0.697\<rparr>"
    unfolding dbl_raw_def s HyperLogLog.simps by simp
  then show ?thesis by simp
qed


section \<open>The sum in doubles and the sum of the reals\<close>

lemma exact_sum:
  assumes "0 \<le> K" and "K \<le> 1074"
  shows "\<forall>r \<in> set rs. 0 \<le> r \<and> r \<le> K \<Longrightarrow> 0 \<le> A \<Longrightarrow>
     A + (\<Sum>r\<leftarrow>rs. 2 ^ nat (K - r)) < 2 ^ 53 \<Longrightarrow>
     foldl (\<lambda>acc r. fl (acc + 2 powi (- r))) (of_int A * 2 powi (- K)) rs =
       of_int (A + (\<Sum>r\<leftarrow>rs. 2 ^ nat (K - r))) * 2 powi (- K)"
proof (induction rs arbitrary: A)
  case Nil
  then show ?case by simp
next
  case (Cons r rs)
  let ?t = "(2::int) ^ nat (K - r)"
  from Cons.prems(1) have r: "0 \<le> r" "r \<le> K" by simp_all
  have t: "(2::real) powi (- r) = of_int ?t * 2 powi (- K)"
    using dyadic_back [of "- K" "- r" 1] r by simp
  have s0: "0 \<le> (\<Sum>r\<leftarrow>rs. (2::int) ^ nat (K - r))"
    by (rule sum_list_nonneg) auto
  have pos: "0 < A + ?t" using Cons.prems(2) by (simp add: add_nonneg_pos)
  have lt: "A + ?t < 2 ^ 53" using Cons.prems(3) s0 by simp
  have "of_int A * 2 powi (- K) + 2 powi (- r) = real_of_int (A + ?t) * 2 powi (- K)"
    unfolding t by (simp add: algebra_simps)
  moreover have "fl (real_of_int (A + ?t) * 2 powi (- K)) = real_of_int (A + ?t) * 2 powi (- K)"
    using pos lt assms(2) by (intro fl_exact) simp_all
  ultimately have step: "fl (of_int A * 2 powi (- K) + 2 powi (- r)) =
      real_of_int (A + ?t) * 2 powi (- K)"
    by simp
  from Cons.prems(1) have rest: "\<forall>r \<in> set rs. 0 \<le> r \<and> r \<le> K" by simp
  from pos have nn: "0 \<le> A + ?t" by simp
  from Cons.prems(3) have b: "A + ?t + (\<Sum>r\<leftarrow>rs. 2 ^ nat (K - r)) < 2 ^ 53" by simp
  show ?case
    by (simp only: foldl.simps step Cons.IH [OF rest nn b]) (simp add: add.assoc)
qed

lemma exact_sum_pos: "rs \<noteq> [] \<Longrightarrow> 0 < (\<Sum>r\<leftarrow>rs. (2::real) powi (- r))"
proof (induction rs)
  case Nil
  then show ?case by simp
next
  case (Cons r rs)
  have t: "0 < (2::real) powi (- r)" by (rule powi_2_pos)
  show ?case
  proof (cases "rs = []")
    case True
    with t show ?thesis by simp
  next
    case False
    from add_pos_pos [OF t Cons.IH [OF False]] show ?thesis by simp
  qed
qed

lemma numerators_bound:
  "\<forall>r \<in> set rs. 0 \<le> r \<and> r \<le> 32 \<Longrightarrow>
     (\<Sum>r\<leftarrow>rs. (2::int) ^ nat (32 - r)) \<le> int (length rs) * 2 ^ 32"
proof (induction rs)
  case Nil
  then show ?case by simp
next
  case (Cons r rs)
  from Cons.prems have "nat (32 - r) \<le> 32" by auto
  then have "(2::int) ^ nat (32 - r) \<le> 2 ^ 32" by (intro power_increasing) simp_all
  moreover from Cons.prems have "(\<Sum>r\<leftarrow>rs. (2::int) ^ nat (32 - r)) \<le> int (length rs) * 2 ^ 32"
    by (intro Cons.IH) simp
  ultimately show ?case by (simp add: algebra_simps)
qed

lemma numerators_sum:
  "\<forall>r \<in> set rs. 0 \<le> r \<and> r \<le> 32 \<Longrightarrow>
     real_of_int (\<Sum>r\<leftarrow>rs. 2 ^ nat (32 - r)) * 2 powi (- 32) = (\<Sum>r\<leftarrow>rs. 2 powi (- r))"
proof (induction rs)
  case Nil
  then show ?case by simp
next
  case (Cons r rs)
  from Cons.prems have r: "0 \<le> r" "r \<le> 32" by simp_all
  have t: "real_of_int (2 ^ nat (32 - r)) * 2 powi (- 32) = 2 powi (- r)"
    using dyadic_back [of "- 32" "- r" 1] r by simp
  from Cons.prems have "real_of_int (\<Sum>r\<leftarrow>rs. 2 ^ nat (32 - r)) * 2 powi (- 32) =
      (\<Sum>r\<leftarrow>rs. 2 powi (- r))"
    by (intro Cons.IH) simp
  with t show ?case by (simp add: algebra_simps)
qed

text \<open>
  While no register exceeds 32 every partial sum is a double: the loop's sum is the
  sum of the reals.
\<close>

lemma dbl_inv_sum_exact:
  assumes "hll_double_inv h" and "\<forall>r \<in> set (registers h). r \<le> 32"
  shows "dbl_inv_sum h = (\<Sum>r\<leftarrow>registers h. 2 powi (- r))"
proof -
  from assms have rs: "\<forall>r \<in> set (registers h). 0 \<le> r \<and> r \<le> 32"
    by (auto simp: hll_double_inv_def)
  from assms(1) have "int (length (registers h)) = m_hll h"
    using inv_m(1) [OF assms(1)] by (simp add: hll_double_inv_def)
  with inv_m(2) [OF assms(1)] have "int (length (registers h)) * 2 ^ 32 \<le> 2 ^ 20 * 2 ^ 32"
    by (intro mult_right_mono) simp_all
  with numerators_bound [OF rs] have b: "0 + (\<Sum>r\<leftarrow>registers h. (2::int) ^ nat (32 - r)) < 2 ^ 53"
    by simp
  from exact_sum [of 32 "registers h" 0, OF _ _ rs _ b]
  have "dbl_inv_sum h = real_of_int (\<Sum>r\<leftarrow>registers h. 2 ^ nat (32 - r)) * 2 powi (- 32)"
    by (simp add: dbl_inv_sum_def)
  then show ?thesis unfolding numerators_sum [OF rs] .
qed

section \<open>The estimate at a rounding boundary\<close>

lemma boundary_inv: "hll_double_inv boundary_state"
  by (simp add: hll_double_inv_def boundary_state_def)

lemma boundary_numerators:
  "(\<Sum>r\<leftarrow>registers boundary_state. (2::int) ^ nat (48 - r)) = 5108883417289090"
  by (simp add: boundary_state_def sum_list_replicate)

lemma boundary_inv_sum: "dbl_inv_sum boundary_state = 5108883417289090 / 2 ^ 48"
proof -
  have "\<forall>r \<in> set (registers boundary_state). 0 \<le> r \<and> r \<le> 48"
    by (simp add: boundary_state_def)
  from exact_sum [of 48 "registers boundary_state" 0, OF _ _ this]
  show ?thesis
    unfolding dbl_inv_sum_def boundary_numerators by (simp add: power_int_minus)
qed

lemma boundary_exact_sum:
  "(\<Sum>r\<leftarrow>registers boundary_state. (2::real) powi (- r)) = 5108883417289090 / 2 ^ 48"
  by (simp add: boundary_state_def sum_list_replicate power_int_minus)

lemma alpha64: "fl (0.709 * 4096) = 6386104271611363 / 2 ^ 41"
  using fl_eval [of 11 "0.709 * 4096" 6386104271611363]
  by (simp add: power_int_minus)

lemma boundary_raw: "dbl_raw boundary_state = 160"
proof -
  have a: "fl (0.709 * real_of_int (64 * 64)) = 6386104271611363 / 2 ^ 41"
    using alpha64 by simp
  have "fl (6386104271611363 / 2 ^ 41 / (5108883417289090 / 2 ^ 48)) = 160"
    using fl_eval [of 7 "6386104271611363 / 2 ^ 41 / (5108883417289090 / 2 ^ 48)" 5629499534213120]
    by (simp add: power_int_minus)
  then show ?thesis
    unfolding dbl_raw_def boundary_inv_sum
    by (simp only: boundary_state_def HyperLogLog.select_convs a)
qed

lemma boundary_zero_count: "spec_zero_count boundary_state = 18"
  by (simp add: spec_zero_count_def boundary_state_def)

lemma boundary_quotient: "fl (64 / 18) = 2001599834386887 / 2 ^ 49"
  using fl_eval [of 1 "64 / 18" 8006399337547548]
  by (simp add: power_int_minus)

text \<open>
  At \<open>boundary_state\<close> the quotient \<open>alpha * m ^ 2 / sum\<close> of the reals exceeds
  \<open>2.5 * m = 160\<close>, by less than half a unit in the last place: the double is \<open>160.0\<close>
  and \<open>estimate\<close> returns the linear-counting value.
\<close>

lemma estimate_at_rounding_boundary:
  "160 < 0.709 * 64 ^ 2 / (\<Sum>r\<leftarrow>registers boundary_state. (2::real) powi (- r)) \<and>
   dbl_raw boundary_state = 2.5 * real_of_int (m_hll boundary_state) \<and>
   HyperLogLog_estimate L boundary_state = Inr (fl (64 * L (2001599834386887 / 2 ^ 49)))"
proof -
  have e: "160 < 0.709 * 64 ^ 2 / (\<Sum>r\<leftarrow>registers boundary_state. (2::real) powi (- r))"
    unfolding boundary_exact_sum by simp
  have m: "m_hll boundary_state = 64" by (simp add: boundary_state_def)
  have r: "dbl_raw boundary_state = 2.5 * real_of_int (m_hll boundary_state)"
    unfolding boundary_raw m by simp
  then have c: "dbl_raw boundary_state \<le> 2.5 * real_of_int (m_hll boundary_state) \<and>
             0 < spec_zero_count boundary_state"
    by (simp add: boundary_zero_count)
  have q: "fl (real_of_int 64 / real_of_int 18) = 2001599834386887 / 2 ^ 49"
    using boundary_quotient by simp
  have "HyperLogLog_estimate L boundary_state =
          Inr (fl (real_of_int (m_hll boundary_state) *
                   L (fl (real_of_int (m_hll boundary_state) /
                          real_of_int (spec_zero_count boundary_state)))))"
    unfolding HyperLogLog_estimate_eq [OF boundary_inv] if_P [OF c] ..
  then have "HyperLogLog_estimate L boundary_state =
          Inr (fl (real_of_int 64 * L (2001599834386887 / 2 ^ 49)))"
    unfolding m boundary_zero_count q .
  with e r show ?thesis by simp
qed

section \<open>The literals of \<open>alpha\<close> and the stored doubles\<close>

text \<open>
  For \<open>m\<close> 16, 32 and 64 the product \<open>alpha * (m * m)\<close> is the same double whether
  \<open>alpha\<close> is the real the literal denotes or the double that is stored: the examples
  below, which give \<open>alpha\<close> by its literal, compute what Python computes.
\<close>

lemma stored_alpha_16:
  "fl 0.673 = 6061845098440688 / 2 ^ 53" and "fl (fl 0.673 * 256) = fl (0.673 * 256)"
proof -
  show a: "fl 0.673 = 6061845098440688 / 2 ^ 53"
    using fl_eval [of "- 1" "0.673" 6061845098440688] by (simp add: power_int_minus)
  have "fl (real_of_int 6061845098440688 * 2 powi (- 45)) =
          real_of_int 6061845098440688 * 2 powi (- 45)"
    by (rule fl_exact) simp_all
  then show "fl (fl 0.673 * 256) = fl (0.673 * 256)"
    unfolding a alpha16 by (simp add: power_int_minus)
qed

lemma stored_alpha_32:
  "fl 0.697 = 6278017880554471 / 2 ^ 53" and "fl (fl 0.697 * 1024) = fl (0.697 * 1024)"
proof -
  show a: "fl 0.697 = 6278017880554471 / 2 ^ 53"
    using fl_eval [of "- 1" "0.697" 6278017880554471] by (simp add: power_int_minus)
  have b: "fl (0.697 * 1024) = 6278017880554471 / 2 ^ 43"
    using fl_eval [of 9 "0.697 * 1024" 6278017880554471] by (simp add: power_int_minus)
  have "fl (real_of_int 6278017880554471 * 2 powi (- 43)) =
          real_of_int 6278017880554471 * 2 powi (- 43)"
    by (rule fl_exact) simp_all
  then show "fl (fl 0.697 * 1024) = fl (0.697 * 1024)"
    unfolding a b by (simp add: power_int_minus)
qed

lemma stored_alpha_64:
  "fl 0.709 = 6386104271611363 / 2 ^ 53" and "fl (fl 0.709 * 4096) = fl (0.709 * 4096)"
proof -
  show a: "fl 0.709 = 6386104271611363 / 2 ^ 53"
    using fl_eval [of "- 1" "0.709" 6386104271611363] by (simp add: power_int_minus)
  have "fl (real_of_int 6386104271611363 * 2 powi (- 41)) =
          real_of_int 6386104271611363 * 2 powi (- 41)"
    by (rule fl_exact) simp_all
  then show "fl (fl 0.709 * 4096) = fl (0.709 * 4096)"
    unfolding a alpha64 by (simp add: power_int_minus)
qed

section \<open>The claims on the Bloom filter\<close>

text \<open>
  C1. No false negatives: in every state reachable from the constructor by insertions,
  \<open>add\<close> of a string returns, and \<open>contains\<close> of the same string is then true.
\<close>

theorem no_false_negatives:
  assumes "reachable H bf"
  shows "\<exists>bf'. BloomFilter_add H bf (PStr item) = Inr bf' \<and>
               BloomFilter_contains H bf' (PStr item) = Inr True"
proof -
  from BloomFilter_add_total [OF reachable_inv [OF assms]] obtain bf'
    where a: "BloomFilter_add H bf (PStr item) = Inr bf'"
    by blast
  with add_then_contains [OF a] show ?thesis by blast
qed

theorem no_false_negatives_witness:
  "reachable sample_hashlib \<lparr>size_bf = 8, num_hashes = 1, bits = [0]\<rparr> \<and>
   (\<exists>bf'. BloomFilter_add sample_hashlib \<lparr>size_bf = 8, num_hashes = 1, bits = [0]\<rparr> (PStr []) = Inr bf' \<and>
          BloomFilter_contains sample_hashlib bf' (PStr []) = Inr True)"
proof -
  have r: "reachable sample_hashlib \<lparr>size_bf = 8, num_hashes = 1, bits = [0]\<rparr>"
    by (rule reachable.init [of "PInt 8" "PInt 1"]) (simp add: BloomFilter_init_def)
  from no_false_negatives [OF r, of "[]"] r show ?thesis by blast
qed

text \<open>
  C9. Insertion is idempotent: once a string has been inserted, inserting it again
  returns a filter with the same bits, which answers every query as before.
\<close>

theorem add_idempotent:
  assumes "BloomFilter_add H bf (PStr item) = Inr bf1"
  shows "\<exists>bf2. BloomFilter_add H bf1 (PStr item) = Inr bf2 \<and> bits bf2 = bits bf1 \<and>
               (\<forall>q. BloomFilter_contains H bf2 q = BloomFilter_contains H bf1 q)"
  using add_twice [OF assms] by simp

theorem add_idempotent_witness:
  "BloomFilter_add sample_hashlib \<lparr>size_bf = 8, num_hashes = 1, bits = [0]\<rparr> (PStr []) =
     Inr \<lparr>size_bf = 8, num_hashes = 1, bits = [32]\<rparr> \<and>
   (\<exists>bf2. BloomFilter_add sample_hashlib \<lparr>size_bf = 8, num_hashes = 1, bits = [32]\<rparr> (PStr []) = Inr bf2 \<and>
          bits bf2 = [32] \<and>
          (\<forall>q. BloomFilter_contains sample_hashlib bf2 q =
               BloomFilter_contains sample_hashlib \<lparr>size_bf = 8, num_hashes = 1, bits = [32]\<rparr> q))"
  using add_idempotent [OF sample_add_empty] sample_add_empty by simp

text \<open>
  C3 as stated fails: \<open>add\<close> and \<open>contains\<close> accept the empty string. On the
  filter \<open>BloomFilter(8, 1)\<close> the empty string hashes to position 5; \<open>add\<close>
  sets that bit and \<open>contains\<close> answers \<open>False\<close> before the insertion.
\<close>

theorem empty_string_accepted:
  "BloomFilter_add sample_hashlib \<lparr>size_bf = 8, num_hashes = 1, bits = [0]\<rparr> (PStr []) =
     Inr \<lparr>size_bf = 8, num_hashes = 1, bits = [32]\<rparr> \<and>
   BloomFilter_contains sample_hashlib \<lparr>size_bf = 8, num_hashes = 1, bits = [0]\<rparr> (PStr []) =
     Inr False"
  by (simp add: sample_add_empty sample_contains_empty)

text \<open>
  C3, amended: a call of \<open>add\<close> or \<open>contains\<close> with a non-text argument fails with
  \<open>TypeError\<close>; a text argument, the empty string included, is never rejected with
  \<open>TypeError\<close>.
\<close>

theorem only_non_text_rejected:
  "(isinstance_str v = None \<longrightarrow>
      BloomFilter_add H bf v = Inl TypeError \<and> BloomFilter_contains H bf v = Inl TypeError) \<and>
   BloomFilter_add H bf (PStr s) \<noteq> Inl TypeError \<and>
   BloomFilter_contains H bf (PStr s) \<noteq> Inl TypeError"
proof (intro conjI impI)
  assume "isinstance_str v = None"
  then show "BloomFilter_add H bf v = Inl TypeError"
    by (cases v) (simp_all add: BloomFilter_add_def)
next
  assume "isinstance_str v = None"
  then show "BloomFilter_contains H bf v = Inl TypeError"
    by (cases v) (simp_all add: BloomFilter_contains_def)
next
  show "BloomFilter_add H bf (PStr s) \<noteq> Inl TypeError"
    using add_loop_not_TypeError [of bf "hash_positions H bf s"] hash_positions_no_TypeError [of H bf s]
    by (simp add: BloomFilter_add_def)
next
  show "BloomFilter_contains H bf (PStr s) \<noteq> Inl TypeError"
    using contains_loop_not_TypeError [of bf "hash_positions H bf s"]
      hash_positions_no_TypeError [of H bf s]
    by (simp add: BloomFilter_contains_def)
qed

theorem only_non_text_rejected_witness:
  "isinstance_str (PInt 7) = None \<and>
   BloomFilter_add sample_hashlib \<lparr>size_bf = 8, num_hashes = 1, bits = [0]\<rparr> (PInt 7) = Inl TypeError \<and>
   BloomFilter_contains sample_hashlib \<lparr>size_bf = 8, num_hashes = 1, bits = [0]\<rparr> (PInt 7) = Inl TypeError"
  using only_non_text_rejected [of "PInt 7" sample_hashlib "\<lparr>size_bf = 8, num_hashes = 1, bits = [0]\<rparr>" "[]"]
  by simp

text \<open>
  C4. With \<open>hashlib\<close>'s digest sizes and a positive \<open>size\<close>, the generator yields
  \<open>(h1 + i * h2) mod size\<close> for \<open>i = 0, ..., num_hashes - 1\<close>, in this order, where
  \<open>h1\<close> is the SHA-256 digest of the UTF-8 bytes read as a big-endian integer below
  \<open>2 ^ 256\<close> and \<open>h2\<close> the MD5 digest read the same way, below \<open>2 ^ 128\<close>, with
  1 in place of 0. The positions depend on the item through its bytes only.
\<close>

theorem hash_positions_double_hashing:
  assumes "digest_sizes H" and "0 < size_bf bf"
  shows "hash_positions H bf item =
           map (\<lambda>i. Inr ((hash_h1 H item + i * hash_h2 H item) mod size_bf bf))
               [0..num_hashes bf - 1] \<and>
         hash_h1 H item = from_bytes_big (sha256 H (encode_utf8 item)) \<and>
         0 \<le> hash_h1 H item \<and> hash_h1 H item < 2 ^ 256 \<and>
         hash_h2 H item =
           (if from_bytes_big (md5 H (encode_utf8 item)) = 0 then 1
            else from_bytes_big (md5 H (encode_utf8 item))) \<and>
         0 < hash_h2 H item \<and> hash_h2 H item < 2 ^ 128 \<and>
         (\<forall>item'. encode_utf8 item' = encode_utf8 item \<longrightarrow>
                  hash_positions H bf item' = hash_positions H bf item)"
proof -
  have "hash_positions H bf item =
          map (\<lambda>i. Inr ((hash_h1 H item + i * hash_h2 H item) mod size_bf bf))
              [0..num_hashes bf - 1]"
    using assms(2) unfolding hash_positions_def hash_loop_map py_mod_def by simp
  moreover have "\<forall>item'. encode_utf8 item' = encode_utf8 item \<longrightarrow>
                  hash_positions H bf item' = hash_positions H bf item"
    by (simp add: hash_positions_def hash_h1_def hash_h2_def)
  moreover have "hash_h2 H item =
           (if from_bytes_big (md5 H (encode_utf8 item)) = 0 then 1
            else from_bytes_big (md5 H (encode_utf8 item)))"
    by (simp add: hash_h2_def Let_def)
  moreover have "hash_h1 H item = from_bytes_big (sha256 H (encode_utf8 item))"
    by (simp add: hash_h1_def)
  ultimately show ?thesis
    using hash_h1_bounds [OF assms(1), of item] hash_h2_bounds [OF assms(1), of item]
    by blast
qed

theorem hash_positions_double_hashing_witness:
  "digest_sizes sample_hashlib \<and>
   (0::int) < size_bf \<lparr>size_bf = 1000, num_hashes = 3, bits = replicate 125 0\<rparr> \<and>
   hash_positions sample_hashlib \<lparr>size_bf = 1000, num_hashes = 3, bits = replicate 125 0\<rparr> [] =
     [Inr 549, Inr 915, Inr 281]"
proof -
  have u: "[0..(2::int)] = [0, 1, 2]"
    by (simp add: upto_rec1)
  have h1: "hash_h1 sample_hashlib [] mod 1000 = 549"
    by (simp add: hash_h1_def sample_hashlib_def encode_utf8_def from_bytes_big_def)
  have h2: "hash_h2 sample_hashlib [] mod 1000 = 366"
    by (simp add: hash_h2_def sample_hashlib_def encode_utf8_def from_bytes_big_def)
  have p1: "(hash_h1 sample_hashlib [] + hash_h2 sample_hashlib []) mod 1000 = 915"
    using h1 h2 by (simp add: mod_add_eq [symmetric])
  have p2: "(hash_h1 sample_hashlib [] + 2 * hash_h2 sample_hashlib []) mod 1000 = 281"
    using h1 h2 by (simp add: mod_add_eq [symmetric] mod_mult_right_eq [symmetric])
  have pos: "(0::int) < size_bf \<lparr>size_bf = 1000, num_hashes = 3, bits = replicate 125 0\<rparr>"
    by simp
  note e = conjunct1 [OF hash_positions_double_hashing [OF sample_digest_sizes pos, of "[]"]]
  have "hash_positions sample_hashlib \<lparr>size_bf = 1000, num_hashes = 3, bits = replicate 125 0\<rparr> [] =
          [Inr 549, Inr 915, Inr 281]"
    unfolding e by (simp add: u h1 p1 p2)
  with sample_digest_sizes pos show ?thesis by blast
qed

section \<open>The claims on the classifier\<close>

text \<open>
  C7. With \<open>add_unique_to_filter = True\<close>, on a filter reachable from the constructor:
  a valid string the filter does not contain is recorded as unique and inserted in the
  same step; and when a valid string occurs again after an earlier occurrence in the
  batch, the dictionary holds the duplicate status for it once that occurrence has been
  processed. The batch is classified, that is the call returns, whenever \<open>str\<close> returns
  for each of its candidates (the only candidates for which it does not are integers of
  more than 4300 digits); and whenever the call returns, the status is the duplicate one.
\<close>

theorem second_occurrence_duplicate:
  assumes "reachable H bloom" and "\<not> invalid_candidate (PStr s)"
  shows "(BloomFilter_contains H bloom (PStr s) = Inr False \<longrightarrow>
            (\<exists>bloom1. BloomFilter_add H bloom (PStr s) = Inr bloom1 \<and>
               classify_step H True (bloom, results) (PStr s) =
                 Inr (bloom1, AList.update s status_unique results))) \<and>
         (PStr s \<in> set pre \<and> (\<forall>p \<in> set pre. \<exists>key. py_str p = Inr key) \<longrightarrow>
            (\<exists>bloom' results'.
               check_password_uniqueness H bloom (pre @ [PStr s]) True = Inr (bloom', results') \<and>
               map_of results' s = Some status_duplicate)) \<and>
         (PStr s \<in> set pre \<longrightarrow>
            (\<forall>bloom' results'.
               check_password_uniqueness H bloom (pre @ [PStr s]) True = Inr (bloom', results') \<longrightarrow>
               map_of results' s = Some status_duplicate))"
proof -
  note inv = reachable_inv [OF assms(1)]
  have step: "BloomFilter_contains H bloom (PStr s) = Inr False \<longrightarrow>
            (\<exists>bloom1. BloomFilter_add H bloom (PStr s) = Inr bloom1 \<and>
               classify_step H True (bloom, results) (PStr s) =
                 Inr (bloom1, AList.update s status_unique results))"
  proof
    assume c: "BloomFilter_contains H bloom (PStr s) = Inr False"
    from BloomFilter_add_total [OF inv, of H s] obtain b1
      where b1: "BloomFilter_add H bloom (PStr s) = Inr b1" by blast
    then show "\<exists>bloom1. BloomFilter_add H bloom (PStr s) = Inr bloom1 \<and>
               classify_step H True (bloom, results) (PStr s) =
                 Inr (bloom1, AList.update s status_unique results)"
      using assms(2) by (simp add: classify_step_valid c)
  qed
  have later: "check_password_uniqueness H bloom (pre @ [PStr s]) True =
                 Inr (b1, AList.update s status_duplicate r1)"
    if m: "PStr s \<in> set pre" and l: "classify_loop H True (bloom, []) pre = Inr (b1, r1)"
    for b1 r1
  proof -
    from classify_loop_inserts [OF inv assms(2) m l]
    have c: "BloomFilter_contains H b1 (PStr s) = Inr True" .
    have "classify_step H True (b1, r1) (PStr s) = Inr (b1, AList.update s status_duplicate r1)"
      using assms(2) by (simp add: classify_step_valid c)
    then show ?thesis
      by (simp add: check_password_uniqueness_def classify_loop_append l)
  qed
  have dup: "map_of (AList.update s status_duplicate r1) s = Some status_duplicate" for r1
    by (simp add: update_conv')
  have returns: "PStr s \<in> set pre \<and> (\<forall>p \<in> set pre. \<exists>key. py_str p = Inr key) \<longrightarrow>
            (\<exists>bloom' results'.
               check_password_uniqueness H bloom (pre @ [PStr s]) True = Inr (bloom', results') \<and>
               map_of results' s = Some status_duplicate)"
  proof
    assume a: "PStr s \<in> set pre \<and> (\<forall>p \<in> set pre. \<exists>key. py_str p = Inr key)"
    then have m: "PStr s \<in> set pre" and k: "\<forall>p \<in> set pre. \<exists>key. py_str p = Inr key"
      by simp_all
    from classify_loop_total [OF inv k, of H True "[]"] obtain b1 r1
      where l: "classify_loop H True (bloom, []) pre = Inr (b1, r1)"
      by blast
    from later [OF m l] dup [of r1]
    show "\<exists>bloom' results'.
        check_password_uniqueness H bloom (pre @ [PStr s]) True = Inr (bloom', results') \<and>
        map_of results' s = Some status_duplicate"
      by blast
  qed
  have partial: "PStr s \<in> set pre \<longrightarrow>
            (\<forall>bloom' results'.
               check_password_uniqueness H bloom (pre @ [PStr s]) True = Inr (bloom', results') \<longrightarrow>
               map_of results' s = Some status_duplicate)"
  proof (intro impI allI)
    fix bloom' results'
    assume m: "PStr s \<in> set pre"
      and r: "check_password_uniqueness H bloom (pre @ [PStr s]) True = Inr (bloom', results')"
    from r obtain b1 r1 where l: "classify_loop H True (bloom, []) pre = Inr (b1, r1)"
      by (cases "classify_loop H True (bloom, []) pre")
        (auto simp: check_password_uniqueness_def classify_loop_append)
    from later [OF m l] r have "results' = AList.update s status_duplicate r1" by simp
    with dup [of r1] show "map_of results' s = Some status_duplicate" by simp
  qed
  from step returns partial show ?thesis by (intro conjI)
qed

theorem second_occurrence_duplicate_witness:
  "reachable sample_hashlib \<lparr>size_bf = 8, num_hashes = 1, bits = [0]\<rparr> \<and>
   \<not> invalid_candidate (PStr [97]) \<and>
   BloomFilter_contains sample_hashlib \<lparr>size_bf = 8, num_hashes = 1, bits = [0]\<rparr> (PStr [97]) = Inr False \<and>
   PStr [97] \<in> set [PStr [97], PInt 5] \<and>
   py_str (PStr [97]) = Inr [97] \<and> py_str (PInt 5) = Inr [53] \<and>
   (\<exists>bloom1. BloomFilter_add sample_hashlib \<lparr>size_bf = 8, num_hashes = 1, bits = [0]\<rparr> (PStr [97]) = Inr bloom1 \<and>
      classify_step sample_hashlib True (\<lparr>size_bf = 8, num_hashes = 1, bits = [0]\<rparr>, []) (PStr [97]) =
        Inr (bloom1, AList.update [97] status_unique [])) \<and>
   (\<exists>bloom' results'.
      check_password_uniqueness sample_hashlib \<lparr>size_bf = 8, num_hashes = 1, bits = [0]\<rparr>
        ([PStr [97], PInt 5] @ [PStr [97]]) True = Inr (bloom', results') \<and>
      map_of results' [97] = Some status_duplicate)"
proof -
  have c: "BloomFilter_contains sample_hashlib \<lparr>size_bf = 8, num_hashes = 1, bits = [0]\<rparr> (PStr [97]) = Inr False"
    by (simp add: BloomFilter_contains_def sample_positions_a get_bit_bf_def py_index_def)
  have m: "PStr [97] \<in> set [PStr [97], PInt 5]" by simp
  have k1: "py_str (PStr [97]) = Inr [97]" by simp
  have k2: "py_str (PInt 5) = Inr [53]"
    using py_str_digit [of 5] by simp
  from k1 k2 have k: "\<forall>p \<in> set [PStr [97], PInt 5]. \<exists>key. py_str p = Inr key"
    by simp
  from second_occurrence_duplicate [OF sample_reachable valid_a, of "[]" "[PStr [97], PInt 5]"]
    c m k k1 k2 sample_reachable valid_a
  show ?thesis by blast
qed

text \<open>
  C8 as stated fails for a candidate that is not text and whose \<open>str\<close> raises: the key
  \<open>str(p)\<close> is computed before the validity test, and for the integer \<open>10 ^ 4300\<close>, of
  4301 digits, it raises \<open>ValueError\<close>. The call ends there and no status is recorded.
\<close>

theorem huge_int_records_no_status:
  "invalid_candidate (PInt (10 ^ max_str_digits)) \<and>
   classify_step sample_hashlib False (\<lparr>size_bf = 8, num_hashes = 1, bits = [0]\<rparr>, [])
     (PInt (10 ^ max_str_digits)) = Inl ValueError \<and>
   check_password_uniqueness sample_hashlib \<lparr>size_bf = 8, num_hashes = 1, bits = [0]\<rparr>
     [PInt (10 ^ max_str_digits)] False = Inl ValueError"
  by (simp add: invalid_candidate_def check_password_uniqueness_def classify_step_def)

text \<open>
  C8, amended. A candidate is invalid exactly when it is \<open>None\<close>, not text, or text made
  of whitespace only (the empty string included). \<open>str\<close> raises for no candidate but an
  integer of more than 4300 digits. For an invalid candidate whose \<open>str\<close> returns the
  step records the invalid status under that key and returns the filter as it was; it
  does so for every filter value, also one on which a query would raise (size 0 in the
  example), so the filter is not consulted. When \<open>str\<close> raises, the step raises the same
  error. A batch of invalid candidates whose \<open>str\<close> returns leaves the filter unchanged
  and records the invalid status for each of them.
\<close>

theorem invalid_candidates_bypass_filter:
  "(invalid_candidate p \<longleftrightarrow>
      p = PNone \<or> isinstance_str p = None \<or> (\<exists>s. p = PStr s \<and> (\<forall>c \<in> set s. is_space c))) \<and>
   (py_str p = Inl e \<longleftrightarrow> e = ValueError \<and> (\<exists>n. p = PInt n \<and> 10 ^ max_str_digits \<le> \<bar>n\<bar>)) \<and>
   (invalid_candidate p \<and> py_str p = Inr key \<longrightarrow>
      classify_step H a (bloom, results) p =
        Inr (bloom, AList.update key status_invalid results)) \<and>
   (py_str p = Inl e \<longrightarrow> classify_step H a (bloom, results) p = Inl e) \<and>
   ((\<forall>p \<in> set ps. invalid_candidate p \<and> (\<exists>key. py_str p = Inr key)) \<longrightarrow>
      (\<exists>results'. check_password_uniqueness H bloom ps a = Inr (bloom, results') \<and>
         (\<forall>p \<in> set ps. \<forall>key. py_str p = Inr key \<longrightarrow>
            map_of results' key = Some status_invalid)))"
proof (intro conjI impI)
  show "invalid_candidate p \<longleftrightarrow>
      p = PNone \<or> isinstance_str p = None \<or> (\<exists>s. p = PStr s \<and> (\<forall>c \<in> set s. is_space c))"
    by (cases p) (simp_all add: invalid_candidate_def strip_empty_iff)
next
  show "py_str p = Inl e \<longleftrightarrow> e = ValueError \<and> (\<exists>n. p = PInt n \<and> 10 ^ max_str_digits \<le> \<bar>n\<bar>)"
    by (rule py_str_Inl)
next
  assume "invalid_candidate p \<and> py_str p = Inr key"
  then show "classify_step H a (bloom, results) p =
        Inr (bloom, AList.update key status_invalid results)"
    by (simp add: classify_step_invalid)
next
  assume "py_str p = Inl e"
  then show "classify_step H a (bloom, results) p = Inl e"
    by (rule classify_step_raises)
next
  assume all: "\<forall>p \<in> set ps. invalid_candidate p \<and> (\<exists>key. py_str p = Inr key)"
  have "\<forall>p \<in> set ps. \<forall>key. py_str p = Inr key \<longrightarrow>
          map_of (foldl (\<lambda>r p. AList.update (projr (py_str p)) status_invalid r) [] ps) key =
            Some status_invalid"
  proof (intro ballI allI impI)
    fix p key
    assume "p \<in> set ps" and "py_str p = Inr key"
    then have "key \<in> (\<lambda>p. projr (py_str p)) ` set ps"
      by force
    then show "map_of (foldl (\<lambda>r p. AList.update (projr (py_str p)) status_invalid r) [] ps) key =
            Some status_invalid"
      by (simp add: map_of_invalid_fold)
  qed
  with invalid_fold [OF all, of H a bloom "[]"]
  show "\<exists>results'. check_password_uniqueness H bloom ps a = Inr (bloom, results') \<and>
         (\<forall>p \<in> set ps. \<forall>key. py_str p = Inr key \<longrightarrow>
            map_of results' key = Some status_invalid)"
    by (simp add: check_password_uniqueness_def)
qed

theorem invalid_candidates_bypass_filter_witness:
  "invalid_candidate (PStr [32, 9]) \<and> py_str (PStr [32, 9]) = Inr [32, 9] \<and>
   classify_step sample_hashlib True (\<lparr>size_bf = 0, num_hashes = 1, bits = []\<rparr>, []) (PStr [32, 9]) =
     Inr (\<lparr>size_bf = 0, num_hashes = 1, bits = []\<rparr>, [([32, 9], status_invalid)]) \<and>
   invalid_candidate PNone \<and> invalid_candidate (PInt 5) \<and> invalid_candidate (PStr []) \<and>
   py_str PNone = Inr [78, 111, 110, 101] \<and> py_str (PInt 5) = Inr [53] \<and>
   py_str (PStr []) = Inr [] \<and>
   (\<exists>results'.
      check_password_uniqueness sample_hashlib \<lparr>size_bf = 0, num_hashes = 1, bits = []\<rparr>
        [PNone, PInt 5, PStr []] True = Inr (\<lparr>size_bf = 0, num_hashes = 1, bits = []\<rparr>, results') \<and>
      map_of results' [78, 111, 110, 101] = Some status_invalid \<and>
      map_of results' [53] = Some status_invalid \<and>
      map_of results' [] = Some status_invalid)"
proof -
  have i: "invalid_candidate (PStr [32, 9])"
    by (simp add: invalid_candidate_def strip_def is_space_def)
  have k: "py_str (PStr [32, 9]) = Inr [32, 9]" by simp
  have i1: "invalid_candidate PNone" and i2: "invalid_candidate (PInt 5)"
    and i3: "invalid_candidate (PStr [])"
    by (simp_all add: invalid_candidate_def strip_def)
  have k1: "py_str PNone = Inr [78, 111, 110, 101]" by simp
  have k2: "py_str (PInt 5) = Inr [53]"
    using py_str_digit [of 5] by simp
  have k3: "py_str (PStr []) = Inr []" by simp
  from i1 i2 i3 k1 k2 k3
  have all: "\<forall>p \<in> set [PNone, PInt 5, PStr []]. invalid_candidate p \<and> (\<exists>key. py_str p = Inr key)"
    by simp
  note t = invalid_candidates_bypass_filter [of "PStr [32, 9]" ValueError "[32, 9]" sample_hashlib True
      "\<lparr>size_bf = 0, num_hashes = 1, bits = []\<rparr>" "[]" "[PNone, PInt 5, PStr []]"]
  from t i k have "classify_step sample_hashlib True (\<lparr>size_bf = 0, num_hashes = 1, bits = []\<rparr>, []) (PStr [32, 9]) =
     Inr (\<lparr>size_bf = 0, num_hashes = 1, bits = []\<rparr>, [([32, 9], status_invalid)])"
    by simp
  moreover from t all obtain results' where r:
      "check_password_uniqueness sample_hashlib \<lparr>size_bf = 0, num_hashes = 1, bits = []\<rparr>
        [PNone, PInt 5, PStr []] True = Inr (\<lparr>size_bf = 0, num_hashes = 1, bits = []\<rparr>, results')"
      and m: "\<forall>p \<in> set [PNone, PInt 5, PStr []]. \<forall>key. py_str p = Inr key \<longrightarrow>
                map_of results' key = Some status_invalid"
    by blast
  from m k1 k2 k3 have "map_of results' [78, 111, 110, 101] = Some status_invalid"
      "map_of results' [53] = Some status_invalid" "map_of results' [] = Some status_invalid"
    by auto
  with r have "\<exists>results'.
      check_password_uniqueness sample_hashlib \<lparr>size_bf = 0, num_hashes = 1, bits = []\<rparr>
        [PNone, PInt 5, PStr []] True = Inr (\<lparr>size_bf = 0, num_hashes = 1, bits = []\<rparr>, results') \<and>
      map_of results' [78, 111, 110, 101] = Some status_invalid \<and>
      map_of results' [53] = Some status_invalid \<and>
      map_of results' [] = Some status_invalid"
    by (intro exI [of _ results']) simp
  ultimately show ?thesis using i k i1 i2 i3 k1 k2 k3 by blast
qed

section \<open>The claims on the estimator\<close>



text \<open>
  C5. For an estimator satisfying the invariant and \<open>hashlib\<close>'s digest sizes: the hash
  \<open>x\<close> is the big-endian reading of the 8-byte BLAKE2b digest of the item's UTF-8
  encoding (unencodable code points replaced), so it depends on the item through its
  bytes only and is below \<open>2 ^ 64\<close>; the register index is its top \<open>p\<close> bits and lies in
  \<open>[0, m)\<close>; the rank \<open>rho\<close> is between 1 and \<open>64 - p + 1\<close>, equals \<open>64 - p + 1\<close>
  when the low \<open>64 - p\<close> bits \<open>w\<close> are all zero, and otherwise
  \<open>2 ^ (64 - p - rho) \<le> w < 2 ^ (64 - p - rho + 1)\<close>, that is, \<open>w\<close> has exactly
  \<open>rho - 1\<close> leading zero bits in its \<open>64 - p\<close>-bit field; the selected register is
  replaced by \<open>rho\<close> when \<open>rho\<close> exceeds it and the estimator is unchanged otherwise.
\<close>

theorem HyperLogLog_add_spec:
  fixes H :: hashlib and h :: HyperLogLog and item :: pystr
  defines "x \<equiv> hash64 H item" and "k \<equiv> nat (64 - p_hll h)"
  defines "idx \<equiv> x div 2 ^ k" and "w \<equiv> x mod 2 ^ k"
  defines "rho \<equiv> clz w (int k) + 1"
  assumes "digest_sizes H" and "hll_inv h"
  shows "x = from_bytes_big (blake2b8 H (encode_utf8 item)) \<and>
         length (blake2b8 H (encode_utf8 item)) = 8 \<and>
         0 \<le> x \<and> x < 2 ^ 64 \<and> 0 \<le> idx \<and> idx < m_hll h \<and>
         1 \<le> rho \<and> rho \<le> 64 - p_hll h + 1 \<and>
         (w = 0 \<longrightarrow> rho = int k + 1) \<and>
         (w \<noteq> 0 \<longrightarrow> 2 ^ nat (int k - rho) \<le> w \<and> w < 2 ^ nat (int k - rho + 1)) \<and>
         HyperLogLog_add H h item =
           (if rho > registers h ! nat idx
            then Inr (h\<lparr>registers := (registers h)[nat idx := rho]\<rparr>)
            else Inr h)"
proof -
  note nn = hll_shift_nonneg [OF assms(7)]
  then have ik: "int k = 64 - p_hll h" by (simp add: k_def)
  have ik': "int (nat (64 - p_hll h)) = 64 - p_hll h" using nn by simp
  note s = hll_split [OF assms(6,7), of item]
  have w: "0 \<le> w" "w < 2 ^ k"
    using s(3,4) by (simp_all add: w_def x_def k_def)
  note c = clz_bounds [OF w]
  have r: "1 \<le> rho" "rho \<le> 64 - p_hll h + 1"
    using c by (simp_all add: rho_def ik)
  have z: "w = 0 \<longrightarrow> rho = int k + 1"
    by (simp add: rho_def clz_def)
  have b: "w \<noteq> 0 \<longrightarrow> 2 ^ nat (int k - rho) \<le> w \<and> w < 2 ^ nat (int k - rho + 1)"
  proof
    assume "w \<noteq> 0"
    with w(1) have pos: "0 < w" by simp
    from \<open>w \<noteq> 0\<close> have e: "int k - rho = bit_length w - 1"
      by (simp add: rho_def clz_def)
    from bit_length_bounds [OF pos]
    show "2 ^ nat (int k - rho) \<le> w \<and> w < 2 ^ nat (int k - rho + 1)"
      by (simp add: e)
  qed
  have a: "HyperLogLog_add H h item =
           (if rho > registers h ! nat idx
            then Inr (h\<lparr>registers := (registers h)[nat idx := rho]\<rparr>)
            else Inr h)"
    using HyperLogLog_add_eq [OF assms(6,7), of item]
    by (simp only: Let_def rho_def w_def idx_def x_def k_def ik')
  have hx: "x = from_bytes_big (blake2b8 H (encode_utf8 item))"
    by (simp add: x_def hash64_def)
  have len: "length (blake2b8 H (encode_utf8 item)) = 8"
    using assms(6) by (simp add: digest_sizes_def)
  from hash64_bounds [OF assms(6), of item] s(1,2) r z b a
  have rest: "0 \<le> x \<and> x < 2 ^ 64 \<and> 0 \<le> idx \<and> idx < m_hll h \<and>
         1 \<le> rho \<and> rho \<le> 64 - p_hll h + 1 \<and>
         (w = 0 \<longrightarrow> rho = int k + 1) \<and>
         (w \<noteq> 0 \<longrightarrow> 2 ^ nat (int k - rho) \<le> w \<and> w < 2 ^ nat (int k - rho + 1)) \<and>
         HyperLogLog_add H h item =
           (if rho > registers h ! nat idx
            then Inr (h\<lparr>registers := (registers h)[nat idx := rho]\<rparr>)
            else Inr h)"
    by (simp add: x_def idx_def k_def)
  show ?thesis by (rule conjI [OF hx conjI [OF len rest]])
qed

theorem HyperLogLog_add_spec_witness:
  "digest_sizes sample_hashlib \<and>
   hll_inv \<lparr>p_hll = 4, m_hll = 16, registers = replicate 16 0, alpha = 0.673\<rparr> \<and>
   HyperLogLog_add sample_hashlib
     \<lparr>p_hll = 4, m_hll = 16, registers = replicate 16 0, alpha = 0.673\<rparr> [] =
   Inr \<lparr>p_hll = 4, m_hll = 16, registers = (replicate 16 0)[14 := 2], alpha = 0.673\<rparr>"
proof -
  have d: "(16476032584258269876::int) div 2 ^ 60 = 14" by simp
  have m: "(16476032584258269876::int) mod 2 ^ 60 = 335131519762412212" by simp
  note t = HyperLogLog_add_spec [OF sample_digest_sizes sample_hll_inv, of "[]"]
  then have "HyperLogLog_add sample_hashlib
     \<lparr>p_hll = 4, m_hll = 16, registers = replicate 16 0, alpha = 0.673\<rparr> [] =
   Inr \<lparr>p_hll = 4, m_hll = 16, registers = (replicate 16 0)[14 := 2], alpha = 0.673\<rparr>"
    by (simp add: sample_hash64_empty d m sample_clz_empty)
  with sample_digest_sizes sample_hll_inv show ?thesis by simp
qed

text \<open>
  C2 as stated fails: with \<open>p = 4\<close> and every register at the maximum rank 61, the sum
  is \<open>16 * 2 ^ (- 61)\<close> and the raw estimate is the double
  \<open>378865318652543 * 2 ^ 16\<close>, about \<open>1.35 * 2 ^ 64\<close>; no register is zero, the raw
  estimate exceeds \<open>2 ^ 64 / 30\<close>, and \<open>math.log\<close> is called on \<open>1 - raw / 2 ^ 64 < 0\<close>:
  \<open>estimate\<close> raises \<open>ValueError\<close> and returns nothing, whatever \<open>math.log\<close> computes.
\<close>

theorem estimate_raises_at_full_registers:
  "HyperLogLog_estimate ln \<lparr>p_hll = 4, m_hll = 16, registers = replicate 16 61, alpha = 0.673\<rparr> =
     Inl ValueError"
proof (rule estimate_raises)
  show "hll_double_inv \<lparr>p_hll = 4, m_hll = 16, registers = replicate 16 61, alpha = 0.673\<rparr>"
    by (rule uniform_inv) simp_all
  show "spec_zero_count \<lparr>p_hll = 4, m_hll = 16, registers = replicate 16 61, alpha = 0.673\<rparr> = 0"
    by (simp add: uniform_zero_count)
  show "2 ^ 64 \<le> dbl_raw \<lparr>p_hll = 4, m_hll = 16, registers = replicate 16 61, alpha = 0.673\<rparr>"
    using uniform_raw_exact [of 61] by simp
qed

text \<open>
  C2, amended: for an estimator satisfying the invariant, in double arithmetic, the
  loop computes the sum of \<open>2 ^ (- register)\<close> and the number of zero registers, the
  raw estimate is \<open>alpha * m ^ 2 / sum\<close>, and \<open>estimate\<close> returns
  \<open>m * log (m / zeros)\<close> when the raw estimate is at most \<open>2.5 * m\<close> and some register
  is zero; otherwise \<open>- 2 ^ 64 * log (1 - raw / 2 ^ 64)\<close> when the raw estimate
  exceeds \<open>2 ^ 64 / 30\<close> and is below \<open>2 ^ 64\<close>; otherwise, when it is at most
  \<open>2 ^ 64 / 30\<close>, the raw estimate. Every operation is the rounded one: \<open>2.5 * m\<close> is
  exact, the double \<open>2 ^ 64 / 30\<close> is 614891469123651712 (lemma \<open>threshold\<close>), and
  \<open>log\<close> is \<open>math.log\<close>.
\<close>

theorem estimate_piecewise:
  assumes "hll_double_inv h"
  shows "estimate_loop (registers h) (0, 0) = Inr (dbl_inv_sum h, spec_zero_count h) \<and>
         raw_estimate h (dbl_inv_sum h) = Inr (dbl_raw h) \<and>
         (dbl_raw h \<le> 2.5 * real_of_int (m_hll h) \<and> 0 < spec_zero_count h \<longrightarrow>
            HyperLogLog_estimate L h =
              Inr (fl (real_of_int (m_hll h) *
                       L (fl (real_of_int (m_hll h) / real_of_int (spec_zero_count h)))))) \<and>
         (\<not> (dbl_raw h \<le> 2.5 * real_of_int (m_hll h) \<and> 0 < spec_zero_count h) \<and>
          fl (2 ^ 64 / 30) < dbl_raw h \<and> dbl_raw h < 2 ^ 64 \<longrightarrow>
            HyperLogLog_estimate L h =
              Inr (fl (- (2 ^ 64) * L (fl (1 - fl (dbl_raw h / 2 ^ 64)))))) \<and>
         (\<not> (dbl_raw h \<le> 2.5 * real_of_int (m_hll h) \<and> 0 < spec_zero_count h) \<and>
          dbl_raw h \<le> fl (2 ^ 64 / 30) \<longrightarrow>
            HyperLogLog_estimate L h = Inr (dbl_raw h))"
proof (intro conjI impI)
  show "estimate_loop (registers h) (0, 0) = Inr (dbl_inv_sum h, spec_zero_count h)"
    by (rule estimate_loop_spec [OF assms])
  show "raw_estimate h (dbl_inv_sum h) = Inr (dbl_raw h)"
    by (rule raw_estimate_spec [OF assms])
next
  assume c: "dbl_raw h \<le> 2.5 * real_of_int (m_hll h) \<and> 0 < spec_zero_count h"
  show "HyperLogLog_estimate L h =
          Inr (fl (real_of_int (m_hll h) *
                   L (fl (real_of_int (m_hll h) / real_of_int (spec_zero_count h)))))"
    unfolding HyperLogLog_estimate_eq [OF assms] if_P [OF c] ..
next
  assume c: "\<not> (dbl_raw h \<le> 2.5 * real_of_int (m_hll h) \<and> 0 < spec_zero_count h) \<and>
          fl (2 ^ 64 / 30) < dbl_raw h \<and> dbl_raw h < 2 ^ 64"
  then have n: "\<not> (dbl_raw h \<le> 2.5 * real_of_int (m_hll h) \<and> 0 < spec_zero_count h)"
    and a: "fl (2 ^ 64 / 30) < dbl_raw h" and b: "dbl_raw h < 2 ^ 64"
    by blast+
  show "HyperLogLog_estimate L h = Inr (fl (- (2 ^ 64) * L (fl (1 - fl (dbl_raw h / 2 ^ 64)))))"
    unfolding HyperLogLog_estimate_eq [OF assms] if_not_P [OF n] if_P [OF a] if_P [OF b] ..
next
  assume c: "\<not> (dbl_raw h \<le> 2.5 * real_of_int (m_hll h) \<and> 0 < spec_zero_count h) \<and>
          dbl_raw h \<le> fl (2 ^ 64 / 30)"
  then have n: "\<not> (dbl_raw h \<le> 2.5 * real_of_int (m_hll h) \<and> 0 < spec_zero_count h)"
    and a: "\<not> fl (2 ^ 64 / 30) < dbl_raw h"
    by (blast, simp)
  show "HyperLogLog_estimate L h = Inr (dbl_raw h)"
    unfolding HyperLogLog_estimate_eq [OF assms] if_not_P [OF n] if_not_P [OF a] ..
qed

theorem estimate_piecewise_witness:
  "hll_double_inv \<lparr>p_hll = 4, m_hll = 16, registers = replicate 16 0, alpha = 0.673\<rparr> \<and>
   HyperLogLog_estimate ln \<lparr>p_hll = 4, m_hll = 16, registers = replicate 16 0, alpha = 0.673\<rparr> =
     Inr 0 \<and>
   hll_double_inv \<lparr>p_hll = 4, m_hll = 16, registers = replicate 16 1, alpha = 0.673\<rparr> \<and>
   HyperLogLog_estimate ln \<lparr>p_hll = 4, m_hll = 16, registers = replicate 16 1, alpha = 0.673\<rparr> =
     Inr (378865318652543 / 2 ^ 44) \<and>
   hll_double_inv \<lparr>p_hll = 4, m_hll = 16, registers = replicate 16 56, alpha = 0.673\<rparr> \<and>
   HyperLogLog_estimate ln \<lparr>p_hll = 4, m_hll = 16, registers = replicate 16 56, alpha = 0.673\<rparr> =
     Inr (fl (- (2 ^ 64) * ln (8628333936088449 / 2 ^ 53))) \<and>
   hll_double_inv boundary_state \<and> dbl_raw boundary_state = 160 \<and>
   HyperLogLog_estimate ln boundary_state = Inr (fl (64 * ln (2001599834386887 / 2 ^ 49)))"
proof -
  let ?h0 = "\<lparr>p_hll = 4, m_hll = 16, registers = replicate 16 0, alpha = 0.673\<rparr>"
  let ?h1 = "\<lparr>p_hll = 4, m_hll = 16, registers = replicate 16 1, alpha = 0.673\<rparr>"
  let ?h56 = "\<lparr>p_hll = 4, m_hll = 16, registers = replicate 16 56, alpha = 0.673\<rparr>"
  have i0: "hll_double_inv ?h0" by (rule uniform_inv) simp_all
  have i1: "hll_double_inv ?h1" by (rule uniform_inv) simp_all
  have i56: "hll_double_inv ?h56" by (rule uniform_inv) simp_all
  have r0: "dbl_raw ?h0 = 378865318652543 / 2 ^ 45"
    using uniform_raw_exact [of 0] by (simp add: power_int_minus)
  have r1: "dbl_raw ?h1 = 378865318652543 / 2 ^ 44"
    using uniform_raw_exact [of 1] by (simp add: power_int_minus)
  have r56: "dbl_raw ?h56 = 378865318652543 * 2 ^ 11"
    using uniform_raw_exact [of 56] by simp
  note th = threshold
  have c0: "dbl_raw ?h0 \<le> 2.5 * real_of_int (m_hll ?h0) \<and> 0 < spec_zero_count ?h0"
    unfolding r0 uniform_zero_count by simp
  have c1: "\<not> (dbl_raw ?h1 \<le> 2.5 * real_of_int (m_hll ?h1) \<and> 0 < spec_zero_count ?h1) \<and>
            dbl_raw ?h1 \<le> fl (2 ^ 64 / 30)"
    unfolding r1 uniform_zero_count th by simp
  have c56: "\<not> (dbl_raw ?h56 \<le> 2.5 * real_of_int (m_hll ?h56) \<and> 0 < spec_zero_count ?h56) \<and>
            fl (2 ^ 64 / 30) < dbl_raw ?h56 \<and> dbl_raw ?h56 < 2 ^ 64"
    unfolding r56 uniform_zero_count th by simp
  from estimate_piecewise [OF i0] c0
  have "HyperLogLog_estimate ln ?h0 =
          Inr (fl (real_of_int (m_hll ?h0) *
               ln (fl (real_of_int (m_hll ?h0) / real_of_int (spec_zero_count ?h0)))))"
    by blast
  moreover have "fl (real_of_int (m_hll ?h0) / real_of_int (spec_zero_count ?h0)) = 1"
    unfolding uniform_zero_count using fl_int [of 1] by simp
  ultimately have e0: "HyperLogLog_estimate ln ?h0 = Inr 0"
    by (simp add: fl_0)
  from estimate_piecewise [OF i1] c1
  have "HyperLogLog_estimate ln ?h1 = Inr (dbl_raw ?h1)"
    by blast
  then have e1: "HyperLogLog_estimate ln ?h1 = Inr (378865318652543 / 2 ^ 44)"
    unfolding r1 .
  have t: "fl (378865318652543 * 2 ^ 11 / 2 ^ 64) = 378865318652543 / 2 ^ 53"
    using fl_exact [of 378865318652543 "- 53"] by (simp add: power_int_minus)
  have u: "fl (1 - 378865318652543 / 2 ^ 53) = 8628333936088449 / 2 ^ 53"
    using fl_exact [of 8628333936088449 "- 53"] by (simp add: power_int_minus)
  from estimate_piecewise [OF i56] c56
  have "HyperLogLog_estimate ln ?h56 =
          Inr (fl (- (2 ^ 64) * ln (fl (1 - fl (dbl_raw ?h56 / 2 ^ 64)))))"
    by blast
  then have e56: "HyperLogLog_estimate ln ?h56 =
          Inr (fl (- (2 ^ 64) * ln (8628333936088449 / 2 ^ 53)))"
    unfolding r56 t u .
  have mb: "m_hll boundary_state = 64" by (simp add: boundary_state_def)
  have cb: "dbl_raw boundary_state \<le> 2.5 * real_of_int (m_hll boundary_state) \<and>
            0 < spec_zero_count boundary_state"
    unfolding boundary_raw mb boundary_zero_count by simp
  have qb: "fl (real_of_int 64 / real_of_int 18) = 2001599834386887 / 2 ^ 49"
    using boundary_quotient by simp
  from estimate_piecewise [OF boundary_inv] cb
  have "HyperLogLog_estimate ln boundary_state =
          Inr (fl (real_of_int (m_hll boundary_state) *
                   ln (fl (real_of_int (m_hll boundary_state) /
                           real_of_int (spec_zero_count boundary_state)))))"
    by blast
  then have "HyperLogLog_estimate ln boundary_state =
          Inr (fl (real_of_int 64 * ln (2001599834386887 / 2 ^ 49)))"
    unfolding mb boundary_zero_count qb .
  then have eb: "HyperLogLog_estimate ln boundary_state =
          Inr (fl (64 * ln (2001599834386887 / 2 ^ 49)))"
    by simp
  from i0 e0 i1 e1 i56 e56 boundary_inv boundary_raw eb show ?thesis by blast
qed

text \<open>
  C10 as stated fails in its last part: \<open>estimate\<close> is not total on the states the
  claim describes. With \<open>p = 5\<close> and all 32 registers at 60 (within \<open>[0, 64 - p + 1]\<close>,
  lemma \<open>full5_inv\<close>) the division is defined, but the logarithm of the large-range
  correction is taken of a negative number and \<open>estimate\<close> raises \<open>ValueError\<close>.
\<close>

theorem estimate_not_total:
  "HyperLogLog_estimate ln \<lparr>p_hll = 5, m_hll = 32, registers = replicate 32 60, alpha = 0.697\<rparr> =
     Inl ValueError"
  by (rule estimate_raises [OF full5_inv _ full5_raw]) (simp add: uniform_zero_count)

text \<open>
  C10, amended: for an estimator satisfying the invariant, every term \<open>2.0 ** (-r)\<close>
  is the positive power of two; their sum is positive, and so is the sum as the loop
  accumulates it in doubles, which is the denominator (the two sums are equal while no
  register exceeds 32); the division of the raw estimate is defined and
  \<open>estimate\<close> raises neither \<open>ZeroDivisionError\<close> nor \<open>OverflowError\<close>; it returns a
  value whenever the small-range branch applies or the raw estimate is below \<open>2 ^ 64\<close>.
\<close>

theorem estimate_division_defined:
  assumes "hll_double_inv h"
  shows "(\<forall>r \<in> set (registers h). py_pow2 (- r) = Inr (2 powi (- r)) \<and> 0 < (2::real) powi (- r)) \<and>
         0 < (\<Sum>r\<leftarrow>registers h. (2::real) powi (- r)) \<and>
         ((\<forall>r \<in> set (registers h). r \<le> 32) \<longrightarrow>
            dbl_inv_sum h = (\<Sum>r\<leftarrow>registers h. 2 powi (- r))) \<and>
         0 < dbl_inv_sum h \<and>
         estimate_loop (registers h) (0, 0) = Inr (dbl_inv_sum h, spec_zero_count h) \<and>
         raw_estimate h (dbl_inv_sum h) =
           Inr (fl (fl (alpha h * real_of_int (m_hll h * m_hll h)) / dbl_inv_sum h)) \<and>
         HyperLogLog_estimate L h \<noteq> Inl ZeroDivisionError \<and>
         HyperLogLog_estimate L h \<noteq> Inl OverflowError \<and>
         ((dbl_raw h \<le> 2.5 * real_of_int (m_hll h) \<and> 0 < spec_zero_count h) \<or>
          dbl_raw h < 2 ^ 64 \<longrightarrow> (\<exists>v. HyperLogLog_estimate L h = Inr v))"
proof (intro conjI impI ballI)
  fix r assume "r \<in> set (registers h)"
  with inv_regs(1) [OF assms] have "- 1074 \<le> - r" "- r \<le> 1023" by auto
  then show "py_pow2 (- r) = Inr (2 powi (- r))" by (rule py_pow2_exact)
  show "0 < (2::real) powi (- r)" by (rule powi_2_pos)
next
  show "0 < (\<Sum>r\<leftarrow>registers h. (2::real) powi (- r))"
    by (rule exact_sum_pos) (rule inv_regs(2) [OF assms])
next
  assume "\<forall>r \<in> set (registers h). r \<le> 32"
  then show "dbl_inv_sum h = (\<Sum>r\<leftarrow>registers h. 2 powi (- r))"
    by (rule dbl_inv_sum_exact [OF assms])
next
  show "0 < dbl_inv_sum h" by (rule dbl_inv_sum_pos [OF assms])
  show "estimate_loop (registers h) (0, 0) = Inr (dbl_inv_sum h, spec_zero_count h)"
    by (rule estimate_loop_spec [OF assms])
  show "raw_estimate h (dbl_inv_sum h) =
          Inr (fl (fl (alpha h * real_of_int (m_hll h * m_hll h)) / dbl_inv_sum h))"
    using raw_estimate_spec [OF assms] by (simp only: dbl_raw_def)
  show "HyperLogLog_estimate L h \<noteq> Inl ZeroDivisionError"
    unfolding HyperLogLog_estimate_eq [OF assms] by simp
  show "HyperLogLog_estimate L h \<noteq> Inl OverflowError"
    unfolding HyperLogLog_estimate_eq [OF assms] by simp
next
  assume "(dbl_raw h \<le> 2.5 * real_of_int (m_hll h) \<and> 0 < spec_zero_count h) \<or>
          dbl_raw h < 2 ^ 64"
  then show "\<exists>v. HyperLogLog_estimate L h = Inr v"
    unfolding HyperLogLog_estimate_eq [OF assms] by auto
qed

theorem estimate_division_defined_witness:
  "hll_double_inv \<lparr>p_hll = 4, m_hll = 16, registers = replicate 16 2, alpha = 0.673\<rparr> \<and>
   dbl_raw \<lparr>p_hll = 4, m_hll = 16, registers = replicate 16 2, alpha = 0.673\<rparr> < 2 ^ 64 \<and>
   0 < dbl_inv_sum \<lparr>p_hll = 4, m_hll = 16, registers = replicate 16 2, alpha = 0.673\<rparr> \<and>
   dbl_inv_sum \<lparr>p_hll = 4, m_hll = 16, registers = replicate 16 2, alpha = 0.673\<rparr> = 4 \<and>
   (\<exists>v. HyperLogLog_estimate ln
          \<lparr>p_hll = 4, m_hll = 16, registers = replicate 16 2, alpha = 0.673\<rparr> = Inr v)"
proof -
  let ?h = "\<lparr>p_hll = 4, m_hll = 16, registers = replicate 16 2, alpha = 0.673\<rparr>"
  have i: "hll_double_inv ?h" by (rule uniform_inv) simp_all
  have r: "dbl_raw ?h = 378865318652543 / 2 ^ 43"
    using uniform_raw_exact [of 2] by (simp add: power_int_minus)
  have c: "dbl_raw ?h < 2 ^ 64" unfolding r by simp
  have s: "\<forall>r \<in> set (registers ?h). r \<le> 32" by simp
  note t = estimate_division_defined [OF i, of ln]
  from t s have "dbl_inv_sum ?h = (\<Sum>r\<leftarrow>registers ?h. 2 powi (- r))" by blast
  then have e: "dbl_inv_sum ?h = 4" by (simp add: sum_list_replicate power_int_minus)
  from t c i e show ?thesis by blast
qed

end
